theory Spec2Isabelle
  imports Main
begin

section \<open>Data model\<close>

text \<open>
  The interfaces \<^verbatim>\<open>Task\<close>, \<^verbatim>\<open>RequestEntry\<close> and \<^verbatim>\<open>TaskManagerFile\<close> of
  \<^verbatim>\<open>src/index.ts\<close>. An optional field is an \<open>option\<close>: \<open>None\<close> is the absent
  (\<^verbatim>\<open>undefined\<close>, deleted) field. Identifiers are the strings the code compares with
  \<^verbatim>\<open>===\<close>; only equality, concatenation and the ASCII characters of \<^verbatim>\<open>task-\<close> and of
  the decimal digits matter to the code modelled here. The two counters are JavaScript
  numbers that only ever count up by one from zero; they are modelled as natural numbers,
  and the numeric parts of ids as integers, which agree with the JavaScript values below
  \<open>2^53\<close>.
\<close>

datatype status = Pending | Active | Done | Failed

datatype priority = High | Medium | Low

record task =
  task_id :: string
  title :: string
  description :: string
  status :: status
  priority :: priority
  dependsOn :: "string list option"
  parentId :: "string option"
  subtaskIds :: "string list option"
  failureReason :: "string option"
  completedDetails :: string

record request_entry =
  requestId :: string
  originalRequest :: string
  splitDetails :: string
  tasks :: "task list"
  completed :: bool

record task_manager =
  requests :: "request_entry list"
  requestCounter :: nat
  taskCounter :: nat

text \<open>The task definitions a caller hands to the planning operations.\<close>

record task_def =
  def_title :: string
  def_description :: string
  def_priority :: "priority option"
  def_dependsOn :: "string list option"

text \<open>
  The reasons for an answer with \<^verbatim>\<open>status: "error"\<close>. \<open>HeadOfEmptyArray\<close> stands for the
  \<^verbatim>\<open>TypeError\<close> that reading \<^verbatim>\<open>potentialNextTasks[0].status\<close> of an empty array would
  raise; the code checks the length before, so it never arises.
\<close>

datatype error =
    RequestNotFound
  | TaskNotFound
  | DependencyTaskNotFound
  | SelfDependency
  | RequestAlreadyCompleted
  | TerminalStatus
  | ParentNotFound
  | NotDirectSubtask
  | RemovalFailed
  | HeadOfEmptyArray

text \<open>
  The answers of the operations, one constructor for each \<^verbatim>\<open>status\<close> tag. The progress
  table and the message texts are left out. Where the code returns a selection of a task's
  fields, the answer carries the task.
\<close>

datatype response =
    Error error
  | AlreadyCompleted
  | AllTasksTerminalRequestCompleted
  | NoActionableTask
  | NextTask task
  | AlreadyDone
  | AlreadyFailed
  | TaskMarkedDone task bool
  | TaskMarkedFailed task bool
  | NoChange
  | DependencyAdded
  | DependencyRemoved
  | Planned string "task list"
  | TasksAdded "task list"
  | TaskUpdated task
  | TaskDeleted
  | SubtaskAdded task
  | SubtaskRemoved
  | ValidationFailed "string list"
  | ValidationPassed

section \<open>JavaScript helpers\<close>

text \<open>\<^verbatim>\<open>a || b\<close> on an optional string: absent and the empty string are falsy.\<close>

definition or_else :: "string option \<Rightarrow> string \<Rightarrow> string" where
  "or_else v d = (case v of None \<Rightarrow> d | Some s \<Rightarrow> if s = [] then d else s)"

text \<open>
  \<^verbatim>\<open>Array.prototype.find\<close> returns the first matching object itself; since the code
  goes on to mutate that object, the model returns its position in the array.
\<close>

fun findIndex :: "('a \<Rightarrow> bool) \<Rightarrow> 'a list \<Rightarrow> nat option" where
  "findIndex P [] = None"
| "findIndex P (x # xs) = (if P x then Some 0 else map_option Suc (findIndex P xs))"

text \<open>
  \<^verbatim>\<open>new Map(req.tasks.map(t => [t.id, t]))\<close>: a later entry with the same key replaces
  an earlier one, so an id resolves to the last task that carries it. The map holds
  references to the task objects; the model holds their positions.
\<close>

definition taskMap :: "task list \<Rightarrow> string \<rightharpoonup> nat" where
  "taskMap ts = map_of (rev (zip (map task_id ts) [0..<length ts]))"

text \<open>\<^verbatim>\<open>s.replace(pat, rep)\<close> with a string pattern replaces the first occurrence.\<close>

fun replace_first :: "string \<Rightarrow> string \<Rightarrow> string \<Rightarrow> string" where
  "replace_first pat rep [] = (if pat = [] then rep else [])"
| "replace_first pat rep (c # cs) =
     (if take (length pat) (c # cs) = pat then rep @ drop (length pat) (c # cs)
      else c # replace_first pat rep cs)"

definition is_digit :: "char \<Rightarrow> bool" where
  "is_digit c = (c \<in> set ''0123456789'')"

definition is_space :: "char \<Rightarrow> bool" where
  "is_space c = (c \<in> {CHR '' '', CHR 0x09, CHR 0x0A, CHR 0x0B, CHR 0x0C, CHR 0x0D})"

definition digit_val :: "char \<Rightarrow> nat" where
  "digit_val c = of_char c - 48"

text \<open>
  \<^verbatim>\<open>parseInt(s, 10)\<close>: leading white space is skipped (the ASCII white space here), a
  sign is read, then the longest run of decimal digits; \<open>None\<close> is \<^verbatim>\<open>NaN\<close>.
\<close>

definition parseInt :: "string \<Rightarrow> int option" where
  "parseInt s =
     (let s1 = dropWhile is_space s;
          neg = (case s1 of [] \<Rightarrow> False | c # _ \<Rightarrow> c = CHR ''-'');
          s2 = (case s1 of [] \<Rightarrow> [] | c # r \<Rightarrow> if c = CHR ''-'' \<or> c = CHR ''+'' then r else s1);
          ds = takeWhile is_digit s2
      in if ds = [] then None
         else Some ((if neg then - 1 else 1) * int (foldl (\<lambda>a c. 10 * a + digit_val c) 0 ds)))"

text \<open>\<^verbatim>\<open>parseInt(t.id.replace("task-", ""), 10)\<close>\<close>

definition idNum :: "string \<Rightarrow> int option" where
  "idNum i = parseInt (replace_first ''task-'' [] i)"

text \<open>The decimal rendering of a counter inside a template literal.\<close>

fun show_nat :: "nat \<Rightarrow> string" where
  "show_nat n =
     (if n < 10 then [char_of (48 + n)] else show_nat (n div 10) @ [char_of (48 + n mod 10)])"

declare show_nat.simps [simp del]

text \<open>
  \<^verbatim>\<open>Array.prototype.sort(cmp)\<close> is stable. The model is the stable insertion sort; for a
  comparator that is a consistent ordering every stable sort yields the same array.
\<close>

fun insert_by :: "('a \<Rightarrow> 'a \<Rightarrow> int) \<Rightarrow> 'a \<Rightarrow> 'a list \<Rightarrow> 'a list" where
  "insert_by cmp x [] = [x]"
| "insert_by cmp x (y # ys) = (if cmp x y \<le> 0 then x # y # ys else y # insert_by cmp x ys)"

definition sort_by :: "('a \<Rightarrow> 'a \<Rightarrow> int) \<Rightarrow> 'a list \<Rightarrow> 'a list" where
  "sort_by cmp xs = foldr (insert_by cmp) xs []"

text \<open>\<^verbatim>\<open>req.tasks.every(t => t.status === "done" || t.status === "failed")\<close>\<close>

definition terminal :: "task \<Rightarrow> bool" where
  "terminal t = (status t = Done \<or> status t = Failed)"

section \<open>getNextTask\<close>

definition areDependenciesMet :: "task list \<Rightarrow> task \<Rightarrow> bool" where
  "areDependenciesMet ts t =
     (case dependsOn t of
        None \<Rightarrow> True
      | Some deps \<Rightarrow>
          list_all (\<lambda>depId. case taskMap ts depId of
                               None \<Rightarrow> False
                             | Some j \<Rightarrow> status (ts ! j) = Done) deps)"

text \<open>\<^verbatim>\<open>task.parentId ? taskMap.get(task.parentId) : null\<close>\<close>

definition parentOf :: "task list \<Rightarrow> task \<Rightarrow> nat option" where
  "parentOf ts t =
     (case parentId t of
        None \<Rightarrow> None
      | Some p \<Rightarrow> if p = [] then None else taskMap ts p)"

text \<open>\<^verbatim>\<open>a.parentId && taskMap.get(a.parentId)?.status === "active"\<close>\<close>

definition parentActive :: "task list \<Rightarrow> task \<Rightarrow> bool" where
  "parentActive ts t =
     (case parentOf ts t of None \<Rightarrow> False | Some p \<Rightarrow> status (ts ! p) = Active)"

definition activeParentTasks :: "task list \<Rightarrow> task list" where
  "activeParentTasks ts =
     filter (\<lambda>t. status t = Active \<and>
                 (case subtaskIds t of None \<Rightarrow> False | Some ids \<Rightarrow> ids \<noteq> [])) ts"

text \<open>The first pass: pending subtasks of active parents whose dependencies are met.\<close>

definition subtasksOfActiveParents :: "task list \<Rightarrow> nat list" where
  "subtasksOfActiveParents ts =
     concat (map (\<lambda>parent.
        case subtaskIds parent of
          None \<Rightarrow> []
        | Some ids \<Rightarrow>
            List.map_filter (\<lambda>subtaskId.
              case taskMap ts subtaskId of
                None \<Rightarrow> None
              | Some j \<Rightarrow>
                  if status (ts ! j) = Pending \<and> areDependenciesMet ts (ts ! j)
                  then Some j else None) ids)
        (activeParentTasks ts))"

text \<open>The second pass, a filter over \<^verbatim>\<open>req.tasks\<close>.\<close>

definition generalActionable :: "task list \<Rightarrow> nat list" where
  "generalActionable ts =
     filter (\<lambda>i. \<not> parentActive ts (ts ! i) \<and>
                 (status (ts ! i) = Pending \<or> status (ts ! i) = Active) \<and>
                 areDependenciesMet ts (ts ! i)) [0..<length ts]"

definition potentialNextTasks :: "task list \<Rightarrow> nat list" where
  "potentialNextTasks ts =
     (if subtasksOfActiveParents ts = [] then generalActionable ts
      else subtasksOfActiveParents ts)"

definition priorityOrder :: "priority \<Rightarrow> int" where
  "priorityOrder p = (case p of High \<Rightarrow> 0 | Medium \<Rightarrow> 1 | Low \<Rightarrow> 2)"

text \<open>
  The comparator handed to \<^verbatim>\<open>sort\<close>. Where an id has no numeric part the difference is
  \<^verbatim>\<open>NaN\<close>, which \<^verbatim>\<open>sort\<close> reads as \<open>0\<close>.
\<close>

definition compareTasks :: "task list \<Rightarrow> nat \<Rightarrow> nat \<Rightarrow> int" where
  "compareTasks ts a b =
     (if parentActive ts (ts ! a) \<and> \<not> parentActive ts (ts ! b) then - 1
      else if \<not> parentActive ts (ts ! a) \<and> parentActive ts (ts ! b) then 1
      else if priorityOrder (priority (ts ! a)) \<noteq> priorityOrder (priority (ts ! b))
        then priorityOrder (priority (ts ! a)) - priorityOrder (priority (ts ! b))
      else (case (idNum (task_id (ts ! a)), idNum (task_id (ts ! b))) of
              (Some x, Some y) \<Rightarrow> x - y
            | _ \<Rightarrow> 0))"

definition activate :: "task list \<Rightarrow> nat \<Rightarrow> task list" where
  "activate ts i = ts[i := (ts ! i)\<lparr>status := Active\<rparr>]"

text \<open>The body of \<^verbatim>\<open>getNextTask\<close> once the request has been found.\<close>

definition selectNext :: "request_entry \<Rightarrow> response \<times> request_entry" where
  "selectNext req =
     (if completed req then (AlreadyCompleted, req)
      else
        let ts = tasks req in
        if potentialNextTasks ts = [] then
          (if list_all terminal ts
           then (AllTasksTerminalRequestCompleted, req\<lparr>completed := True\<rparr>)
           else (NoActionableTask, req))
        else
          (case sort_by (compareTasks ts) (potentialNextTasks ts) of
             [] \<Rightarrow> (Error HeadOfEmptyArray, req)
           | nextTask # _ \<Rightarrow>
               if status (ts ! nextTask) = Pending then
                 let ts1 = (case parentOf ts (ts ! nextTask) of
                              None \<Rightarrow> ts
                            | Some p \<Rightarrow> if status (ts ! p) = Pending then activate ts p else ts);
                     ts2 = activate ts1 nextTask
                 in (NextTask (ts2 ! nextTask), req\<lparr>tasks := ts2\<rparr>)
               else (NextTask (ts ! nextTask), req)))"

text \<open>
  \<^verbatim>\<open>const req = this.data.requests.find((r) => r.requestId === requestId); if (!req) return
  { status: "error", message: "Request not found" }\<close>, followed by the body of the
  operation on that request and by \<^verbatim>\<open>saveTasks\<close>. The bodies are the functions
  \<open>selectNext\<close>, \<open>markDone\<close>, \<open>markFailed\<close>, \<open>addDep\<close>, \<open>removeDep\<close>, \<open>update\<close>,
  \<open>delete\<close> and \<open>removeSub\<close>; a body that returns early hands the request back as it
  was.
\<close>

definition withRequest ::
  "task_manager \<Rightarrow> string \<Rightarrow> (request_entry \<Rightarrow> response \<times> request_entry)
     \<Rightarrow> response \<times> task_manager" where
  "withRequest s rid f =
     (case findIndex (\<lambda>r. requestId r = rid) (requests s) of
        None \<Rightarrow> (Error RequestNotFound, s)
      | Some k \<Rightarrow>
          (case f (requests s ! k) of
             (res, req') \<Rightarrow> (res, s\<lparr>requests := (requests s)[k := req']\<rparr>)))"

definition getNextTask :: "task_manager \<Rightarrow> string \<Rightarrow> response \<times> task_manager" where
  "getNextTask s rid = withRequest s rid selectNext"

section \<open>requestPlanning and addTasksToRequest\<close>

text \<open>One iteration of the loop that builds \<^verbatim>\<open>newTasks\<close>; \<open>n\<close> is the counter after its increment.\<close>

definition newTask :: "nat \<Rightarrow> task_def \<Rightarrow> task" where
  "newTask n d =
     \<lparr>task_id = ''task-'' @ show_nat n,
      title = def_title d,
      description = def_description d,
      status = Pending,
      priority = (case def_priority d of None \<Rightarrow> Medium | Some p \<Rightarrow> p),
      dependsOn = Some (case def_dependsOn d of None \<Rightarrow> [] | Some ds \<Rightarrow> ds),
      parentId = None,
      subtaskIds = None,
      failureReason = None,
      completedDetails = []\<rparr>"

fun newTasks :: "nat \<Rightarrow> task_def list \<Rightarrow> task list" where
  "newTasks c [] = []"
| "newTasks c (d # ds) = newTask (Suc c) d # newTasks (Suc c) ds"

definition requestPlanning ::
  "task_manager \<Rightarrow> string \<Rightarrow> task_def list \<Rightarrow> string option \<Rightarrow> response \<times> task_manager" where
  "requestPlanning s orig defs split =
     (let rc = Suc (requestCounter s);
          rid = ''req-'' @ show_nat rc;
          new = newTasks (taskCounter s) defs
      in (Planned rid new,
          \<lparr>requests = requests s @
             [\<lparr>requestId = rid, originalRequest = orig, splitDetails = or_else split orig,
               tasks = new, completed = False\<rparr>],
           requestCounter = rc,
           taskCounter = taskCounter s + length defs\<rparr>))"

definition addTasksToRequest ::
  "task_manager \<Rightarrow> string \<Rightarrow> task_def list \<Rightarrow> response \<times> task_manager" where
  "addTasksToRequest s rid defs =
     (case findIndex (\<lambda>r. requestId r = rid) (requests s) of
        None \<Rightarrow> (Error RequestNotFound, s)
      | Some k \<Rightarrow>
          let req = requests s ! k in
          if completed req then (Error RequestAlreadyCompleted, s)
          else
            let new = newTasks (taskCounter s) defs
            in (TasksAdded new,
                s\<lparr>requests := (requests s)[k := req\<lparr>tasks := tasks req @ new\<rparr>],
                  taskCounter := taskCounter s + length defs\<rparr>))"

section \<open>markTaskDone and markTaskFailed\<close>

text \<open>
  The block headed \<^verbatim>\<open>// Check for parent task auto-completion\<close>, which both functions
  carry; they differ in the text written to \<^verbatim>\<open>completedDetails\<close>. An absent
  \<^verbatim>\<open>subtaskIds\<close> makes \<^verbatim>\<open>parentTask.subtaskIds?.every(...)\<close> undefined, which is falsy.
\<close>

definition autoCompleteParent :: "string \<Rightarrow> task list \<Rightarrow> nat \<Rightarrow> task list" where
  "autoCompleteParent details ts i =
     (case parentId (ts ! i) of
        None \<Rightarrow> ts
      | Some pid \<Rightarrow>
          if pid = [] then ts
          else
            (case findIndex (\<lambda>p. task_id p = pid) ts of
               None \<Rightarrow> ts
             | Some p \<Rightarrow>
                 if status (ts ! p) = Pending \<or> status (ts ! p) = Active then
                   (case subtaskIds (ts ! p) of
                      None \<Rightarrow> ts
                    | Some ids \<Rightarrow>
                        if list_all (\<lambda>subId.
                             case findIndex (\<lambda>s. task_id s = subId) ts of
                               None \<Rightarrow> False
                             | Some j \<Rightarrow> terminal (ts ! j)) ids
                        then ts[p := (ts ! p)\<lparr>status := Done, completedDetails := details\<rparr>]
                        else ts)
                 else ts))"

text \<open>\<^verbatim>\<open>if (allTasksInRequestTerminal && !req.completed) req.completed = true\<close>\<close>

definition completeRequest :: "request_entry \<Rightarrow> request_entry" where
  "completeRequest req =
     (if list_all terminal (tasks req) \<and> \<not> completed req then req\<lparr>completed := True\<rparr> else req)"

definition markDone :: "string \<Rightarrow> string option \<Rightarrow> request_entry \<Rightarrow> response \<times> request_entry" where
  "markDone taskId details req =
     (case findIndex (\<lambda>t. task_id t = taskId) (tasks req) of
        None \<Rightarrow> (Error TaskNotFound, req)
      | Some i \<Rightarrow>
          let ts = tasks req in
          if status (ts ! i) = Done then (AlreadyDone, req)
          else if status (ts ! i) = Failed then (AlreadyFailed, req)
          else
            let ts1 = ts[i := (ts ! i)\<lparr>status := Done,
                                      completedDetails := or_else details ''Completed successfully'',
                                      failureReason := None\<rparr>];
                ts2 = autoCompleteParent
                        ''Automatically completed as all subtasks are terminal.'' ts1 i;
                req' = completeRequest (req\<lparr>tasks := ts2\<rparr>)
            in (TaskMarkedDone (ts2 ! i) (completed req'), req'))"

definition markFailed :: "string \<Rightarrow> string option \<Rightarrow> request_entry \<Rightarrow> response \<times> request_entry" where
  "markFailed taskId reason req =
     (case findIndex (\<lambda>t. task_id t = taskId) (tasks req) of
        None \<Rightarrow> (Error TaskNotFound, req)
      | Some i \<Rightarrow>
          let ts = tasks req in
          if status (ts ! i) = Failed then (AlreadyFailed, req)
          else if status (ts ! i) = Done then (AlreadyDone, req)
          else
            let ts1 = ts[i := (ts ! i)\<lparr>status := Failed,
                                      failureReason := Some (or_else reason ''No reason provided''),
                                      completedDetails := []\<rparr>];
                ts2 = autoCompleteParent
                        ''Automatically completed as all subtasks are terminal (some may have failed).''
                        ts1 i;
                req' = completeRequest (req\<lparr>tasks := ts2\<rparr>)
            in (TaskMarkedFailed (ts2 ! i) (completed req'), req'))"

definition markTaskDone ::
  "task_manager \<Rightarrow> string \<Rightarrow> string \<Rightarrow> string option \<Rightarrow> response \<times> task_manager" where
  "markTaskDone s rid taskId details = withRequest s rid (markDone taskId details)"

definition markTaskFailed ::
  "task_manager \<Rightarrow> string \<Rightarrow> string \<Rightarrow> string option \<Rightarrow> response \<times> task_manager" where
  "markTaskFailed s rid taskId reason = withRequest s rid (markFailed taskId reason)"

section \<open>addDependency, removeDependency, updateTask\<close>

definition addDep :: "string \<Rightarrow> string \<Rightarrow> request_entry \<Rightarrow> response \<times> request_entry" where
  "addDep taskId dependsOnTaskId req =
     (let ts = tasks req in
      case findIndex (\<lambda>t. task_id t = taskId) ts of
        None \<Rightarrow> (Error TaskNotFound, req)
      | Some i \<Rightarrow>
          (case findIndex (\<lambda>t. task_id t = dependsOnTaskId) ts of
             None \<Rightarrow> (Error DependencyTaskNotFound, req)
           | Some _ \<Rightarrow>
               if taskId = dependsOnTaskId then (Error SelfDependency, req)
               else
                 let deps = (case dependsOn (ts ! i) of None \<Rightarrow> [] | Some ds \<Rightarrow> ds) in
                 if dependsOnTaskId \<notin> set deps
                 then (DependencyAdded,
                       req\<lparr>tasks := ts[i := (ts ! i)\<lparr>dependsOn := Some (deps @ [dependsOnTaskId])\<rparr>]\<rparr>)
                 else (NoChange, req)))"

definition removeDep :: "string \<Rightarrow> string \<Rightarrow> request_entry \<Rightarrow> response \<times> request_entry" where
  "removeDep taskId dependsOnTaskId req =
     (let ts = tasks req in
      case findIndex (\<lambda>t. task_id t = taskId) ts of
        None \<Rightarrow> (Error TaskNotFound, req)
      | Some i \<Rightarrow>
          (case dependsOn (ts ! i) of
             None \<Rightarrow> (NoChange, req)
           | Some deps \<Rightarrow>
               if dependsOnTaskId \<notin> set deps then (NoChange, req)
               else
                 let deps' = filter (\<lambda>d. d \<noteq> dependsOnTaskId) deps
                 in (DependencyRemoved,
                     req\<lparr>tasks := ts[i := (ts ! i)\<lparr>dependsOn :=
                                          (if deps' = [] then None else Some deps')\<rparr>]\<rparr>)))"

definition addDependency ::
  "task_manager \<Rightarrow> string \<Rightarrow> string \<Rightarrow> string \<Rightarrow> response \<times> task_manager" where
  "addDependency s rid taskId dependsOnTaskId = withRequest s rid (addDep taskId dependsOnTaskId)"

definition removeDependency ::
  "task_manager \<Rightarrow> string \<Rightarrow> string \<Rightarrow> string \<Rightarrow> response \<times> task_manager" where
  "removeDependency s rid taskId dependsOnTaskId =
     withRequest s rid (removeDep taskId dependsOnTaskId)"

definition update ::
  "string \<Rightarrow> string option \<Rightarrow> string option \<Rightarrow> priority option
     \<Rightarrow> request_entry \<Rightarrow> response \<times> request_entry" where
  "update taskId new_title new_description new_priority req =
     (let ts = tasks req in
      case findIndex (\<lambda>t. task_id t = taskId) ts of
        None \<Rightarrow> (Error TaskNotFound, req)
      | Some i \<Rightarrow>
          if terminal (ts ! i) then (Error TerminalStatus, req)
          else
            let t = (ts ! i)\<lparr>title := or_else new_title (title (ts ! i)),
                             description := or_else new_description (description (ts ! i)),
                             priority := (case new_priority of
                                            None \<Rightarrow> priority (ts ! i) | Some p \<Rightarrow> p)\<rparr>
            in (TaskUpdated t, req\<lparr>tasks := ts[i := t]\<rparr>))"

definition updateTask ::
  "task_manager \<Rightarrow> string \<Rightarrow> string \<Rightarrow> string option \<Rightarrow> string option \<Rightarrow> priority option
     \<Rightarrow> response \<times> task_manager" where
  "updateTask s rid taskId new_title new_description new_priority =
     withRequest s rid (update taskId new_title new_description new_priority)"

section \<open>Cascading delete\<close>

text \<open>
  What one iteration of the \<^verbatim>\<open>while\<close> loop of \<^verbatim>\<open>removeTaskAndDescendants\<close> pushes on
  the queue: the subtask ids of the current task that exist in the map.
\<close>

definition existingSubtasks :: "task list \<Rightarrow> string \<Rightarrow> string list" where
  "existingSubtasks ts currentId =
     (case taskMap ts currentId of
        None \<Rightarrow> []
      | Some i \<Rightarrow>
          (case subtaskIds (ts ! i) of
             None \<Rightarrow> []
           | Some ids \<Rightarrow> filter (\<lambda>subId. taskMap ts subId \<noteq> None) ids))"

text \<open>The \<^verbatim>\<open>while (queue.length > 0)\<close> loop, on the queue and the set \<^verbatim>\<open>tasksToDelete\<close>.\<close>

function collect :: "task list \<Rightarrow> string list \<Rightarrow> string set \<Rightarrow> string set" where
  "collect ts [] del = del"
| "collect ts (currentId # queue) del =
     (if currentId \<in> del then collect ts queue del
      else collect ts (queue @ existingSubtasks ts currentId) (insert currentId del))"
  by pat_completeness auto

lemma finite_dom_taskMap: "finite (dom (taskMap ts))"
  by (simp add: taskMap_def finite_dom_map_of)

lemma existingSubtasks_unknown: "taskMap ts c = None \<Longrightarrow> existingSubtasks ts c = []"
  by (simp add: existingSubtasks_def)

termination collect
proof (relation "inv_image (less_than <*lex*> less_than)
                   (\<lambda>(ts, q, del). (card (dom (taskMap ts) - del), length q))")
  show "wf (inv_image (less_than <*lex*> less_than)
             (\<lambda>(ts, q, del). (card (dom (taskMap ts) - del), length q)))"
    by (intro wf_inv_image wf_lex_prod wf_less_than)
next
  fix ts :: "task list" and currentId queue and del :: "string set"
  assume "currentId \<in> del"
  then show "((ts, queue, del), (ts, currentId # queue, del))
      \<in> inv_image (less_than <*lex*> less_than)
          (\<lambda>(ts, q, del). (card (dom (taskMap ts) - del), length q))"
    by simp
next
  fix ts :: "task list" and currentId queue and del :: "string set"
  assume fresh: "currentId \<notin> del"
  show "((ts, queue @ existingSubtasks ts currentId, insert currentId del),
         (ts, currentId # queue, del))
      \<in> inv_image (less_than <*lex*> less_than)
          (\<lambda>(ts, q, del). (card (dom (taskMap ts) - del), length q))"
  proof (cases "taskMap ts currentId")
    case None
    then have "dom (taskMap ts) - insert currentId del = dom (taskMap ts) - del"
      by auto
    with None show ?thesis
      by (simp add: existingSubtasks_unknown)
  next
    case (Some i)
    then have "currentId \<in> dom (taskMap ts) - del"
      using fresh by auto
    then have "card (dom (taskMap ts) - insert currentId del) < card (dom (taskMap ts) - del)"
      by (metis Diff_insert card_Diff1_less finite_Diff finite_dom_taskMap)
    then show ?thesis by simp
  qed
qed

text \<open>The \<^verbatim>\<open>forEach\<close> that strips references to deleted tasks from a surviving task.\<close>

definition cleanUp :: "string set \<Rightarrow> task \<Rightarrow> task" where
  "cleanUp del t =
     t\<lparr>dependsOn :=
         (case dependsOn t of
            None \<Rightarrow> None
          | Some deps \<Rightarrow>
              let deps' = filter (\<lambda>depId. depId \<notin> del) deps
              in if deps' = [] then None else Some deps'),
       parentId :=
         (case parentId t of
            None \<Rightarrow> None
          | Some p \<Rightarrow> if p \<noteq> [] \<and> p \<in> del then None else Some p)\<rparr>"

text \<open>The block headed \<^verbatim>\<open>// Remove from parent's subtaskIds list\<close>.\<close>

definition unlinkFromParent :: "task list \<Rightarrow> nat \<Rightarrow> string \<Rightarrow> task list" where
  "unlinkFromParent ts r taskIdToRemove =
     (case parentOf ts (ts ! r) of
        None \<Rightarrow> ts
      | Some p \<Rightarrow>
          (case subtaskIds (ts ! p) of
             None \<Rightarrow> ts
           | Some ids \<Rightarrow>
               let ids' = filter (\<lambda>i. i \<noteq> taskIdToRemove) ids
               in ts[p := (ts ! p)\<lparr>subtaskIds := (if ids' = [] then None else Some ids')\<rparr>]))"

definition removeTaskAndDescendants :: "request_entry \<Rightarrow> string \<Rightarrow> bool \<times> request_entry" where
  "removeTaskAndDescendants req taskIdToRemove =
     (let ts = tasks req in
      case taskMap ts taskIdToRemove of
        None \<Rightarrow> (False, req)
      | Some r \<Rightarrow>
          let tasksToDelete = collect ts [taskIdToRemove] {};
              ts1 = unlinkFromParent ts r taskIdToRemove;
              ts2 = filter (\<lambda>t. task_id t \<notin> tasksToDelete) ts1;
              ts3 = map (cleanUp tasksToDelete) ts2
          in (length ts3 < length ts, req\<lparr>tasks := ts3\<rparr>))"

definition delete :: "string \<Rightarrow> request_entry \<Rightarrow> response \<times> request_entry" where
  "delete taskId req =
     (case findIndex (\<lambda>t. task_id t = taskId) (tasks req) of
        None \<Rightarrow> (Error TaskNotFound, req)
      | Some _ \<Rightarrow>
          (case removeTaskAndDescendants req taskId of
             (removed, req') \<Rightarrow>
               if removed then (TaskDeleted, req') else (Error RemovalFailed, req)))"

definition deleteTask :: "task_manager \<Rightarrow> string \<Rightarrow> string \<Rightarrow> response \<times> task_manager" where
  "deleteTask s rid taskId = withRequest s rid (delete taskId)"

definition removeSub :: "string \<Rightarrow> string option \<Rightarrow> request_entry \<Rightarrow> response \<times> request_entry" where
  "removeSub subtaskId parentTaskId req =
     (let ts = tasks req in
      if \<not> list_ex (\<lambda>t. task_id t = subtaskId) ts then (Error TaskNotFound, req)
      else
        let check =
          (case parentTaskId of
             None \<Rightarrow> None
           | Some pid \<Rightarrow>
               if pid = [] then None
               else
                 (case findIndex (\<lambda>t. task_id t = pid) ts of
                    None \<Rightarrow> Some ParentNotFound
                  | Some p \<Rightarrow>
                      (case subtaskIds (ts ! p) of
                         None \<Rightarrow> Some NotDirectSubtask
                       | Some ids \<Rightarrow>
                           if subtaskId \<in> set ids then None else Some NotDirectSubtask)))
        in case check of
             Some e \<Rightarrow> (Error e, req)
           | None \<Rightarrow>
               (case removeTaskAndDescendants req subtaskId of
                  (removed, req') \<Rightarrow>
                    if removed then (SubtaskRemoved, req') else (Error RemovalFailed, req)))"

definition removeSubtask ::
  "task_manager \<Rightarrow> string \<Rightarrow> string \<Rightarrow> string option \<Rightarrow> response \<times> task_manager" where
  "removeSubtask s rid subtaskId parentTaskId = withRequest s rid (removeSub subtaskId parentTaskId)"

section \<open>addSubtask\<close>

definition addSubtask ::
  "task_manager \<Rightarrow> string \<Rightarrow> string \<Rightarrow> string \<Rightarrow> string \<Rightarrow> priority option
     \<Rightarrow> string list option \<Rightarrow> response \<times> task_manager" where
  "addSubtask s rid parentTaskId subtaskTitle subtaskDescription prio deps =
     (case findIndex (\<lambda>r. requestId r = rid) (requests s) of
        None \<Rightarrow> (Error RequestNotFound, s)
      | Some k \<Rightarrow>
          let req = requests s ! k; ts = tasks req in
          if completed req then (Error RequestAlreadyCompleted, s)
          else
            (case findIndex (\<lambda>t. task_id t = parentTaskId) ts of
               None \<Rightarrow> (Error ParentNotFound, s)
             | Some p \<Rightarrow>
                 if terminal (ts ! p) then (Error TerminalStatus, s)
                 else
                   let newSubtaskId = ''task-'' @ show_nat (Suc (taskCounter s));
                       newSubtask =
                         \<lparr>task_id = newSubtaskId,
                          title = subtaskTitle,
                          description = subtaskDescription,
                          status = Pending,
                          priority = (case prio of None \<Rightarrow> priority (ts ! p) | Some q \<Rightarrow> q),
                          dependsOn = Some (case deps of None \<Rightarrow> [] | Some ds \<Rightarrow> ds),
                          parentId = Some parentTaskId,
                          subtaskIds = Some [],
                          failureReason = None,
                          completedDetails = []\<rparr>;
                       ts1 = ts @ [newSubtask];
                       ts2 = ts1[p := (ts1 ! p)\<lparr>subtaskIds :=
                                Some ((case subtaskIds (ts1 ! p) of None \<Rightarrow> [] | Some ids \<Rightarrow> ids)
                                      @ [newSubtaskId])\<rparr>]
                   in (SubtaskAdded newSubtask,
                       s\<lparr>requests := (requests s)[k := req\<lparr>tasks := ts2\<rparr>],
                         taskCounter := Suc (taskCounter s)\<rparr>)))"

section \<open>validateDependencies\<close>

definition danglingIssue :: "string \<Rightarrow> string \<Rightarrow> string" where
  "danglingIssue taskId depId =
     ''Task '' @ taskId @ '' depends on non-existent task '' @ depId @ ''.''"

definition circularIssue :: "string \<Rightarrow> string \<Rightarrow> string" where
  "circularIssue taskId depId =
     ''Circular dependency detected: '' @ taskId @ '' -> ... -> '' @ depId @ '' -> '' @ taskId"

text \<open>The first loop: one message for each dependency id that is not a key of the map.\<close>

definition danglingIssues :: "task list \<Rightarrow> string list" where
  "danglingIssues ts =
     concat (map (\<lambda>t. case dependsOn t of
                         None \<Rightarrow> []
                       | Some deps \<Rightarrow>
                           map (danglingIssue (task_id t))
                             (filter (\<lambda>depId. taskMap ts depId = None) deps)) ts)"

text \<open>
  The variables \<^verbatim>\<open>visited\<close>, \<^verbatim>\<open>recursionStack\<close>, \<^verbatim>\<open>cycleFound\<close> and \<^verbatim>\<open>issues\<close> that the
  closure \<^verbatim>\<open>detectCycle\<close> reads and writes.
\<close>

record dfs =
  visited :: "string set"
  recursionStack :: "string set"
  cycleFound :: bool
  issues :: "string list"

definition enter :: "string \<Rightarrow> dfs \<Rightarrow> dfs" where
  "enter taskId st = st\<lparr>visited := insert taskId (visited st),
                         recursionStack := insert taskId (recursionStack st)\<rparr>"

definition leave :: "string \<Rightarrow> dfs \<Rightarrow> dfs" where
  "leave taskId st = st\<lparr>recursionStack := recursionStack st - {taskId}\<rparr>"

text \<open>
  \<^verbatim>\<open>detectCycle\<close> and its \<^verbatim>\<open>for (const depId of task.dependsOn)\<close> loop. A \<^verbatim>\<open>return\<close>
  taken after the cycle has been found leaves the function before
  \<^verbatim>\<open>recursionStack.delete(taskId)\<close>.
\<close>

function detectCycle :: "task list \<Rightarrow> string \<Rightarrow> dfs \<Rightarrow> dfs"
  and detectDeps :: "task list \<Rightarrow> string \<Rightarrow> string list \<Rightarrow> dfs \<Rightarrow> dfs" where
  "detectCycle ts taskId st =
     (if cycleFound st then st
      else
        (case taskMap ts taskId of
           None \<Rightarrow> leave taskId (enter taskId st)
         | Some i \<Rightarrow>
             (case dependsOn (ts ! i) of
                None \<Rightarrow> leave taskId (enter taskId st)
              | Some deps \<Rightarrow>
                  let st' = detectDeps ts taskId deps (enter taskId st)
                  in if cycleFound st' then st' else leave taskId st')))"
| "detectDeps ts taskId [] st = st"
| "detectDeps ts taskId (depId # rest) st =
     (if taskMap ts depId = None then detectDeps ts taskId rest st
      else if depId \<notin> visited st then
        (let st' = detectCycle ts depId st
         in if cycleFound st' then st' else detectDeps ts taskId rest st')
      else if depId \<in> recursionStack st then
        st\<lparr>issues := issues st @ [circularIssue taskId depId], cycleFound := True\<rparr>
      else detectDeps ts taskId rest st)"
  by pat_completeness auto

lemma visited_mono:
  "detectCycle_detectDeps_dom (Inl (ts, taskId, st)) \<Longrightarrow>
     visited st \<subseteq> visited (detectCycle ts taskId st)"
  "detectCycle_detectDeps_dom (Inr (ts, taskId, deps, st)) \<Longrightarrow>
     visited st \<subseteq> visited (detectDeps ts taskId deps st)"
proof (induction ts taskId st and ts taskId deps st rule: detectCycle_detectDeps.pinduct)
  case (1 ts taskId st)
  then show ?case
    by (auto simp: detectCycle.psimps Let_def enter_def leave_def split: option.splits)
next
  case (2 ts taskId st)
  then show ?case by (simp add: detectDeps.psimps)
next
  case (3 ts taskId depId rest st)
  show ?case
  proof (cases "taskMap ts depId \<noteq> None \<and> depId \<notin> visited st
                 \<and> \<not> cycleFound (detectCycle ts depId st)")
    case True
    with 3 have "visited st \<subseteq> visited (detectCycle ts depId st)"
      and "visited (detectCycle ts depId st)
             \<subseteq> visited (detectDeps ts taskId rest (detectCycle ts depId st))"
      by simp_all
    then have "visited st \<subseteq> visited (detectDeps ts taskId rest (detectCycle ts depId st))"
      by (rule subset_trans)
    with True 3(1) show ?thesis
      by (auto simp: detectDeps.psimps Let_def)
  next
    case False
    with 3 show ?thesis
      by (auto simp: detectDeps.psimps Let_def)
  qed
qed

termination detectCycle
proof (relation "inv_image (less_than <*lex*> less_than <*lex*> less_than)
     (\<lambda>x. case x of
         Inl (ts, taskId, st) \<Rightarrow> (card (dom (taskMap ts) - visited st - {taskId}), 2::nat, 0::nat)
       | Inr (ts, taskId, deps, st) \<Rightarrow> (card (dom (taskMap ts) - visited st), 1, length deps))",
    goal_cases)
  case 1
  show ?case by (intro wf_inv_image wf_lex_prod wf_less_than)
next
  case (2 ts taskId st i deps)
  have "dom (taskMap ts) - visited (enter taskId st) = dom (taskMap ts) - visited st - {taskId}"
    by (auto simp: enter_def)
  then show ?case by simp
next
  case (3 ts taskId depId rest st)
  then show ?case by simp
next
  case (4 ts taskId depId rest st)
  then have "depId \<in> dom (taskMap ts) - visited st" by auto
  then have "card (dom (taskMap ts) - visited st - {depId}) < card (dom (taskMap ts) - visited st)"
    by (meson card_Diff1_less finite_Diff finite_dom_taskMap)
  then show ?case by simp
next
  case (5 ts taskId depId rest st st')
  then have "visited st \<subseteq> visited st'"
    using visited_mono(1) by simp
  then have "card (dom (taskMap ts) - visited st') \<le> card (dom (taskMap ts) - visited st)"
    by (intro card_mono) (auto simp: finite_dom_taskMap)
  then show ?case by auto
next
  case (6 ts taskId depId rest st)
  then show ?case by simp
qed

declare detectCycle.simps [simp del]

text \<open>The loop \<^verbatim>\<open>for (const task of req.tasks)\<close> that starts a traversal at each unvisited task.\<close>

fun detectAll :: "task list \<Rightarrow> task list \<Rightarrow> dfs \<Rightarrow> dfs" where
  "detectAll ts [] st = st"
| "detectAll ts (t # rest) st =
     (if task_id t \<notin> visited st \<and> \<not> cycleFound st
      then detectAll ts rest (detectCycle ts (task_id t) st)
      else detectAll ts rest st)"




section \<open>The operations as a whole\<close>

text \<open>
  Every operation reloads the file, acts, and saves; the state between two calls is the
  saved file. \<^verbatim>\<open>loadTasks\<close> yields the empty store with both counters at zero when there is
  no file yet. The operations that only read (\<^verbatim>\<open>open_task_details\<close>, \<^verbatim>\<open>list_requests\<close>,
  \<^verbatim>\<open>validate_dependencies\<close>) leave the state as it is.
\<close>

datatype operation =
    RequestPlanning string "task_def list" "string option"
  | GetNextTask string
  | MarkTaskDone string string "string option"
  | MarkTaskFailed string string "string option"
  | AddTasksToRequest string "task_def list"
  | UpdateTask string string "string option" "string option" "priority option"
  | AddDependency string string string
  | RemoveDependency string string string
  | DeleteTask string string
  | AddSubtask string string string string "priority option" "string list option"
  | RemoveSubtask string string "string option"

fun run :: "operation \<Rightarrow> task_manager \<Rightarrow> response \<times> task_manager" where
  "run (RequestPlanning orig defs split) s = requestPlanning s orig defs split"
| "run (GetNextTask rid) s = getNextTask s rid"
| "run (MarkTaskDone rid taskId details) s = markTaskDone s rid taskId details"
| "run (MarkTaskFailed rid taskId reason) s = markTaskFailed s rid taskId reason"
| "run (AddTasksToRequest rid defs) s = addTasksToRequest s rid defs"
| "run (UpdateTask rid taskId t d p) s = updateTask s rid taskId t d p"
| "run (AddDependency rid taskId depId) s = addDependency s rid taskId depId"
| "run (RemoveDependency rid taskId depId) s = removeDependency s rid taskId depId"
| "run (DeleteTask rid taskId) s = deleteTask s rid taskId"
| "run (AddSubtask rid parentTaskId t d p deps) s = addSubtask s rid parentTaskId t d p deps"
| "run (RemoveSubtask rid subtaskId parentTaskId) s = removeSubtask s rid subtaskId parentTaskId"

definition empty_store :: task_manager where
  "empty_store = \<lparr>requests = [], requestCounter = 0, taskCounter = 0\<rparr>"

inductive reachable :: "task_manager \<Rightarrow> bool" where
  initial: "reachable empty_store"
| step: "reachable s \<Longrightarrow> reachable (snd (run op s))"

section \<open>Notions used to state the properties\<close>





text \<open>
  A request with a task Y and a task X that depends on Y, after Y has been selected and
  marked done.
\<close>

definition store_XY :: task_manager where
  "store_XY =
     snd (markTaskDone
       (snd (getNextTask
         (snd (requestPlanning empty_store ''dependent tasks''
            [\<lparr>def_title = ''Y'', def_description = ''first'',
              def_priority = None, def_dependsOn = None\<rparr>,
             \<lparr>def_title = ''X'', def_description = ''second'',
              def_priority = None, def_dependsOn = Some [''task-1'']\<rparr>] None))
         ''req-1''))
       ''req-1'' ''task-1'' None)"

text \<open>
  A three-level hierarchy: G is planned, P is added as a subtask of G and C as a subtask
  of P; all three are pending.
\<close>

definition store_GPC :: task_manager where
  "store_GPC =
     snd (addSubtask
       (snd (addSubtask
         (snd (requestPlanning empty_store ''three levels''
            [\<lparr>def_title = ''G'', def_description = ''top'',
              def_priority = Some Low, def_dependsOn = None\<rparr>] None))
         ''req-1'' ''task-1'' ''P'' ''middle'' (Some Medium) None))
       ''req-1'' ''task-2'' ''C'' ''leaf'' (Some High) None)"

text \<open>
  The root and everything reachable from it through \<^verbatim>\<open>subtaskIds\<close>, along ids that
  name a task of the request.
\<close>

inductive_set descendants :: "task list \<Rightarrow> string \<Rightarrow> string set"
  for ts :: "task list" and root :: string where
  root: "root \<in> descendants ts root"
| child: "c \<in> descendants ts root \<Longrightarrow> taskMap ts c = Some i \<Longrightarrow> subtaskIds (ts ! i) = Some ids
          \<Longrightarrow> sub \<in> set ids \<Longrightarrow> sub \<in> task_id ` set ts \<Longrightarrow> sub \<in> descendants ts root"

code_pred descendantsp .

text \<open>The positions of the tasks whose id is outside a set of ids.\<close>

definition survivors :: "task list \<Rightarrow> string set \<Rightarrow> nat list" where
  "survivors ts D = filter (\<lambda>j. task_id (ts ! j) \<notin> D) [0..<length ts]"

text \<open>An absent list of ids read as the empty list.\<close>

definition ids_of :: "string list option \<Rightarrow> string list" where
  "ids_of v = (case v of None \<Rightarrow> [] | Some ids \<Rightarrow> ids)"

text \<open>
  A request with a top-level task G (task-1), a task Z (task-2) that depends on task-4, and
  below G the chain of subtasks P (task-3), C (task-4), CC (task-5).
\<close>

definition store_cascade :: task_manager where
  "store_cascade =
     snd (addSubtask
       (snd (addSubtask
         (snd (addSubtask
           (snd (requestPlanning empty_store ''cascade''
              [\<lparr>def_title = ''G'', def_description = ''top'',
                def_priority = None, def_dependsOn = None\<rparr>,
               \<lparr>def_title = ''Z'', def_description = ''waits for C'',
                def_priority = None, def_dependsOn = Some [''task-4'']\<rparr>] None))
           ''req-1'' ''task-1'' ''P'' ''child'' None None))
         ''req-1'' ''task-3'' ''C'' ''grandchild'' None None))
       ''req-1'' ''task-4'' ''CC'' ''great-grandchild'' None None)"






text \<open>What one traversal step may do to the issue list: nothing, or append one circular issue.\<close>

definition reports :: "dfs \<Rightarrow> dfs \<Rightarrow> bool" where
  "reports st st' =
     ((\<not> cycleFound st' \<and> issues st' = issues st) \<or>
      (cycleFound st' \<and> (\<exists>a b. issues st' = issues st @ [circularIssue a b])))"

text \<open>The state after a sequence of operations.\<close>

definition execute :: "operation list \<Rightarrow> task_manager \<Rightarrow> task_manager" where
  "execute ops s = fold (\<lambda>op s. snd (run op s)) ops s"

text \<open>
  The three-level hierarchy G, P, C after C has been marked failed: P is completed
  automatically.
\<close>

definition store_failed_leaf :: task_manager where
  "store_failed_leaf =
     execute
       [RequestPlanning ''three levels''
          [\<lparr>def_title = ''G'', def_description = ''top'',
            def_priority = Some Low, def_dependsOn = None\<rparr>] None,
        AddSubtask ''req-1'' ''task-1'' ''P'' ''middle'' (Some Medium) None,
        AddSubtask ''req-1'' ''task-2'' ''C'' ''leaf'' (Some High) None,
        GetNextTask ''req-1'',
        MarkTaskFailed ''req-1'' ''task-3'' None]
       empty_store"

text \<open>
  A request with tasks Y and X: Y is selected and marked done, then X, the last task
  that is not terminal, is deleted.
\<close>

definition store_last_deleted :: task_manager where
  "store_last_deleted =
     execute
       [RequestPlanning ''two tasks''
          [\<lparr>def_title = ''Y'', def_description = ''first'',
            def_priority = None, def_dependsOn = None\<rparr>,
           \<lparr>def_title = ''X'', def_description = ''second'',
            def_priority = None, def_dependsOn = None\<rparr>] None,
        GetNextTask ''req-1'',
        MarkTaskDone ''req-1'' ''task-1'' None,
        DeleteTask ''req-1'' ''task-2'']
       empty_store"

text \<open>A request with a single task, which has been selected and is active.\<close>

definition store_one_active :: task_manager where
  "store_one_active =
     execute
       [RequestPlanning ''one task''
          [\<lparr>def_title = ''Y'', def_description = ''only'',
            def_priority = None, def_dependsOn = None\<rparr>] None,
        GetNextTask ''req-1'']
       empty_store"

text \<open>A request planned with an empty task list.\<close>

definition store_no_tasks :: task_manager where
  "store_no_tasks = execute [RequestPlanning ''nothing to do'' [] None] empty_store"

text \<open>A request whose only task is planned with its own future id in \<^verbatim>\<open>dependsOn\<close>.\<close>

definition store_self_dependency :: task_manager where
  "store_self_dependency =
     execute
       [RequestPlanning ''self''
          [\<lparr>def_title = ''A'', def_description = ''waits for itself'',
            def_priority = None, def_dependsOn = Some [''task-1'']\<rparr>] None]
       empty_store"

text \<open>
  A task carries a failure reason only while it is failed, and a failed task carries no
  completion details.
\<close>

definition clean :: "task \<Rightarrow> bool" where
  "clean t = ((status t \<noteq> Failed \<longrightarrow> failureReason t = None) \<and>
              (status t = Failed \<longrightarrow> completedDetails t = []))"

text \<open>The tasks of a request are clean, and a completed request has only terminal tasks.\<close>

definition sound :: "request_entry \<Rightarrow> bool" where
  "sound req = ((\<forall>t\<in>set (tasks req). clean t) \<and>
                (completed req \<longrightarrow> (\<forall>t\<in>set (tasks req). terminal t)))"



section \<open>Auxiliary facts\<close>

lemma findIndex_Some:
  "findIndex P xs = Some i \<Longrightarrow> i < length xs \<and> P (xs ! i) \<and> (\<forall>j<i. \<not> P (xs ! j))"
proof (induction xs arbitrary: i)
  case Nil
  then show ?case by simp
next
  case (Cons x xs)
  show ?case
  proof (cases "P x")
    case True
    with Cons.prems show ?thesis by simp
  next
    case False
    with Cons.prems obtain i' where i': "findIndex P xs = Some i'" "i = Suc i'"
      by auto
    from Cons.IH[OF i'(1)] False i'(2) show ?thesis
      by (auto simp: less_Suc_eq_0_disj)
  qed
qed

lemma findIndex_None: "findIndex P xs = None \<longleftrightarrow> (\<forall>x\<in>set xs. \<not> P x)"
  by (induction xs) auto

lemma taskMap_Some: "taskMap ts k = Some i \<Longrightarrow> i < length ts \<and> task_id (ts ! i) = k"
proof -
  assume "taskMap ts k = Some i"
  then have "(k, i) \<in> set (zip (map task_id ts) [0..<length ts])"
    unfolding taskMap_def by (metis map_of_SomeD set_rev)
  then show ?thesis
    by (auto simp: in_set_zip)
qed

lemma taskMap_None: "taskMap ts k = None \<longleftrightarrow> k \<notin> task_id ` set ts"
proof -
  have "fst ` set (zip (map task_id ts) [0..<length ts]) = set (map task_id ts)"
    by (metis length_map length_upt map_fst_zip minus_nat.diff_0 set_map)
  then show ?thesis
    by (simp add: taskMap_def map_of_eq_None_iff)
qed

subsection \<open>Sorting\<close>

lemma set_insert_by: "set (insert_by cmp x xs) = insert x (set xs)"
  by (induction xs) auto

lemma set_sort_by: "set (sort_by cmp xs) = set xs"
  by (induction xs) (auto simp: sort_by_def set_insert_by)

lemma sort_by_Nil: "sort_by cmp xs = [] \<longleftrightarrow> xs = []"
  by (metis set_sort_by set_empty)



subsection \<open>The selection order\<close>






subsection \<open>Selection\<close>

lemma withRequest_found:
  assumes "findIndex (\<lambda>r. requestId r = rid) (requests s) = Some k"
  shows "withRequest s rid f =
           (fst (f (requests s ! k)), s\<lparr>requests := (requests s)[k := snd (f (requests s ! k))]\<rparr>)"
  using assms by (simp add: withRequest_def split: prod.splits)

lemma withRequest_missing:
  assumes "findIndex (\<lambda>r. requestId r = rid) (requests s) = None"
  shows "withRequest s rid f = (Error RequestNotFound, s)"
  using assms by (simp add: withRequest_def)

lemma subtasksOfActiveParents_props:
  assumes "n \<in> set (subtasksOfActiveParents ts)"
  shows "n < length ts \<and> status (ts ! n) = Pending \<and> areDependenciesMet ts (ts ! n)"
  using assms
  by (auto simp: subtasksOfActiveParents_def List.map_filter_def
           split: option.splits if_splits dest: taskMap_Some)

lemma potentialNextTasks_props:
  assumes "n \<in> set (potentialNextTasks ts)"
  shows "n < length ts \<and> (status (ts ! n) = Pending \<or> status (ts ! n) = Active)
           \<and> areDependenciesMet ts (ts ! n)"
proof (cases "subtasksOfActiveParents ts = []")
  case True
  with assms show ?thesis
    by (auto simp: potentialNextTasks_def generalActionable_def)
next
  case False
  with assms show ?thesis
    using subtasksOfActiveParents_props[of n ts] by (simp add: potentialNextTasks_def)
qed

lemma selectNext_head:
  assumes "\<not> completed req"
      and "sort_by (compareTasks (tasks req)) (potentialNextTasks (tasks req)) = n # rest"
  shows "selectNext req =
           (if status (tasks req ! n) = Pending then
              (let ts = tasks req;
                   ts1 = (case parentOf ts (ts ! n) of
                            None \<Rightarrow> ts
                          | Some p \<Rightarrow> if status (ts ! p) = Pending then activate ts p else ts);
                   ts2 = activate ts1 n
               in (NextTask (ts2 ! n), req\<lparr>tasks := ts2\<rparr>))
            else (NextTask (tasks req ! n), req))"
proof -
  have "potentialNextTasks (tasks req) \<noteq> []"
    using assms(2) sort_by_Nil[of "compareTasks (tasks req)" "potentialNextTasks (tasks req)"]
    by auto
  with assms show ?thesis
    by (simp add: selectNext_def Let_def)
qed

lemma activate_twice:
  "n < length ts \<Longrightarrow> (activate ts p ! n)\<lparr>status := Active\<rparr> = (ts ! n)\<lparr>status := Active\<rparr>"
  by (cases "p = n") (simp_all add: activate_def)

lemma length_activate: "length (activate ts p) = length ts"
  by (simp add: activate_def)

lemma selectNext_returns:
  assumes "\<not> completed req"
      and "sort_by (compareTasks (tasks req)) (potentialNextTasks (tasks req)) = n # rest"
  shows "fst (selectNext req) = NextTask ((tasks req ! n)\<lparr>status := Active\<rparr>)"
proof -
  have "n \<in> set (potentialNextTasks (tasks req))"
    using assms(2) set_sort_by[of "compareTasks (tasks req)" "potentialNextTasks (tasks req)"]
    by auto
  then have n: "n < length (tasks req)"
    and st: "status (tasks req ! n) = Pending \<or> status (tasks req ! n) = Active"
    using potentialNextTasks_props by blast+
  show ?thesis
  proof (cases "status (tasks req ! n) = Pending")
    case True
    then show ?thesis
      using n activate_twice[of n "tasks req"]
      by (auto simp: selectNext_head[OF assms] Let_def length_activate activate_def[of _ n]
               split: option.splits)
  next
    case False
    with st have "status (tasks req ! n) = Active" by simp
    then have "(tasks req ! n)\<lparr>status := Active\<rparr> = tasks req ! n" by simp
    with False show ?thesis
      by (simp add: selectNext_head[OF assms])
  qed
qed

lemma nth_activate: "j < length ts \<Longrightarrow>
  activate ts p ! j = (if j = p then (ts ! j)\<lparr>status := Active\<rparr> else ts ! j)"
  by (simp add: activate_def)

lemma findIndex_map: "findIndex (\<lambda>t. f t = x) xs = findIndex (\<lambda>y. y = x) (map f xs)"
  by (induction xs) auto

lemma findIndex_same_ids:
  assumes "map task_id ts' = map task_id ts"
  shows "findIndex (\<lambda>t. task_id t = x) ts' = findIndex (\<lambda>t. task_id t = x) ts"
  using assms by (simp add: findIndex_map[of task_id])

lemma map_task_id_update:
  assumes "task_id t = task_id (ts ! i)"
  shows "map task_id (ts[i := t]) = map task_id ts"
  using assms by (metis list_update_id map_update)

lemma autoCompleteParent_fires:
  assumes "parentId (ts ! i) = Some pid" "pid \<noteq> []"
      and "findIndex (\<lambda>t. task_id t = pid) ts = Some p"
      and "status (ts ! p) = Pending \<or> status (ts ! p) = Active"
      and "subtaskIds (ts ! p) = Some ids"
      and "\<forall>sid\<in>set ids. \<exists>j. findIndex (\<lambda>t. task_id t = sid) ts = Some j \<and> terminal (ts ! j)"
  shows "autoCompleteParent details ts i = ts[p := (ts ! p)\<lparr>status := Done, completedDetails := details\<rparr>]"
proof -
  have "list_all (\<lambda>subId. case findIndex (\<lambda>s. task_id s = subId) ts of
                             None \<Rightarrow> False | Some j \<Rightarrow> terminal (ts ! j)) ids"
    using assms(6) by (auto simp: list_all_iff)
  with assms(1-5) show ?thesis
    by (simp add: autoCompleteParent_def)
qed

lemma tasks_completeRequest: "tasks (completeRequest req) = tasks req"
  by (simp add: completeRequest_def)

subsection \<open>The traversal of the cascading delete\<close>

lemma existingSubtasks_iff:
  "sub \<in> set (existingSubtasks ts c) \<longleftrightarrow>
     (\<exists>i ids. taskMap ts c = Some i \<and> subtaskIds (ts ! i) = Some ids \<and> sub \<in> set ids
              \<and> sub \<in> task_id ` set ts)"
proof (cases "taskMap ts c")
  case None
  then show ?thesis by (simp add: existingSubtasks_def)
next
  case (Some i)
  show ?thesis
  proof (cases "subtaskIds (ts ! i)")
    case None
    with Some show ?thesis by (simp add: existingSubtasks_def)
  next
    case (Some ids)
    with \<open>taskMap ts c = Some i\<close> show ?thesis
      by (simp add: existingSubtasks_def taskMap_None)
  qed
qed

lemma descendants_children:
  assumes "c \<in> descendants ts root"
  shows "set (existingSubtasks ts c) \<subseteq> descendants ts root"
proof
  fix sub assume "sub \<in> set (existingSubtasks ts c)"
  then obtain i ids where "taskMap ts c = Some i" "subtaskIds (ts ! i) = Some ids"
    "sub \<in> set ids" "sub \<in> task_id ` set ts"
    unfolding existingSubtasks_iff by blast
  with assms show "sub \<in> descendants ts root"
    by (rule descendants.child)
qed

lemma collect_sound:
  assumes "del \<subseteq> descendants ts root" "set q \<subseteq> descendants ts root"
  shows "collect ts q del \<subseteq> descendants ts root"
  using assms
proof (induction ts q del rule: collect.induct)
  case (1 ts del)
  then show ?case by simp
next
  case (2 ts currentId queue del)
  show ?case
  proof (cases "currentId \<in> del")
    case True
    with 2 show ?thesis by simp
  next
    case False
    have "set (existingSubtasks ts currentId) \<subseteq> descendants ts root"
      using 2(4) descendants_children by simp
    with False 2 show ?thesis by simp
  qed
qed

lemma collect_closed:
  assumes "\<forall>c\<in>del. set (existingSubtasks ts c) \<subseteq> del \<union> set q"
  shows "del \<union> set q \<subseteq> collect ts q del \<and>
         (\<forall>c\<in>collect ts q del. set (existingSubtasks ts c) \<subseteq> collect ts q del)"
  using assms
proof (induction ts q del rule: collect.induct)
  case (1 ts del)
  then show ?case by simp
next
  case (2 ts currentId queue del)
  show ?case
  proof (cases "currentId \<in> del")
    case True
    have "\<forall>c\<in>del. set (existingSubtasks ts c) \<subseteq> del \<union> set queue"
      using 2(3) True by auto
    from 2(1)[OF True this] True show ?thesis by auto
  next
    case False
    have "\<forall>c\<in>insert currentId del.
            set (existingSubtasks ts c)
              \<subseteq> insert currentId del \<union> set (queue @ existingSubtasks ts currentId)"
      using 2(3) by auto
    from 2(2)[OF False this] False show ?thesis by auto
  qed
qed

lemma collect_descendants: "collect ts [root] {} = descendants ts root"
proof
  show "collect ts [root] {} \<subseteq> descendants ts root"
    by (rule collect_sound) (simp_all add: descendants.root)
next
  have closed: "{} \<union> set [root] \<subseteq> collect ts [root] {} \<and>
       (\<forall>c\<in>collect ts [root] {}. set (existingSubtasks ts c) \<subseteq> collect ts [root] {})"
    by (rule collect_closed) simp
  show "descendants ts root \<subseteq> collect ts [root] {}"
  proof
    fix x assume "x \<in> descendants ts root"
    then show "x \<in> collect ts [root] {}"
    proof (induction rule: descendants.induct)
      case root
      then show ?case using closed by simp
    next
      case (child c i ids sub)
      then have "sub \<in> set (existingSubtasks ts c)"
        by (auto simp: existingSubtasks_iff)
      with child.IH closed show ?case by blast
    qed
  qed
qed

lemma descendants_are_tasks:
  assumes "root \<in> task_id ` set ts" "x \<in> descendants ts root"
  shows "x \<in> task_id ` set ts"
  using assms(2,1) by (induction rule: descendants.induct) auto

lemma filter_by_positions:
  "filter P xs = map ((!) xs) (filter (\<lambda>j. P (xs ! j)) [0..<length xs])"
proof -
  have "filter P xs = filter P (map ((!) xs) [0..<length xs])"
    by (simp add: map_nth)
  also have "\<dots> = map ((!) xs) (filter (P \<circ> (!) xs) [0..<length xs])"
    by (simp only: filter_map)
  finally show ?thesis by (simp add: comp_def)
qed

lemma length_unlinkFromParent: "length (unlinkFromParent ts r x) = length ts"
  by (simp add: unlinkFromParent_def Let_def split: option.splits)

lemma nth_unlinkFromParent:
  assumes "j < length ts"
  shows "unlinkFromParent ts r x ! j =
           (if parentOf ts (ts ! r) = Some j \<and> subtaskIds (ts ! j) \<noteq> None
            then (ts ! j)\<lparr>subtaskIds :=
                   (if filter (\<lambda>i. i \<noteq> x) (ids_of (subtaskIds (ts ! j))) = [] then None
                    else Some (filter (\<lambda>i. i \<noteq> x) (ids_of (subtaskIds (ts ! j)))))\<rparr>
            else ts ! j)"
proof (cases "parentOf ts (ts ! r)")
  case None
  then show ?thesis by (simp add: unlinkFromParent_def)
next
  case (Some p)
  show ?thesis
  proof (cases "subtaskIds (ts ! p)")
    case None
    with Some show ?thesis by (auto simp: unlinkFromParent_def)
  next
    case (Some ids)
    with \<open>parentOf ts (ts ! r) = Some p\<close> assms show ?thesis
      by (cases "j = p") (simp_all add: unlinkFromParent_def Let_def ids_of_def)
  qed
qed

lemma removeTaskAndDescendants_found:
  assumes "taskMap (tasks req) root = Some r"
  shows "removeTaskAndDescendants req root =
           (True, req\<lparr>tasks := map (\<lambda>j. cleanUp (descendants (tasks req) root)
                                          (unlinkFromParent (tasks req) r root ! j))
                                  (survivors (tasks req) (descendants (tasks req) root))\<rparr>)"
proof -
  let ?ts = "tasks req"
  let ?D = "descendants ?ts root"
  let ?ts1 = "unlinkFromParent ?ts r root"
  have r: "r < length ?ts" "task_id (?ts ! r) = root"
    using taskMap_Some[OF assms] by simp_all
  have ids: "task_id (?ts1 ! j) = task_id (?ts ! j)" if "j < length ?ts" for j
    using that by (simp add: nth_unlinkFromParent)
  have "filter (\<lambda>t. task_id t \<notin> ?D) ?ts1 =
          map ((!) ?ts1) (filter (\<lambda>j. task_id (?ts1 ! j) \<notin> ?D) [0..<length ?ts1])"
    by (rule filter_by_positions)
  also have "filter (\<lambda>j. task_id (?ts1 ! j) \<notin> ?D) [0..<length ?ts1] = survivors ?ts ?D"
    unfolding survivors_def length_unlinkFromParent
    by (rule filter_cong) (simp_all add: ids)
  finally have flt: "filter (\<lambda>t. task_id t \<notin> ?D) ?ts1 = map ((!) ?ts1) (survivors ?ts ?D)" .
  have "length (filter (\<lambda>j. task_id (?ts ! j) \<notin> ?D) [0..<length ?ts]) < length [0..<length ?ts]"
    by (rule length_filter_less[of r]) (use r in \<open>simp_all add: descendants.root\<close>)
  then have shorter: "length (survivors ?ts ?D) < length ?ts"
    by (simp add: survivors_def)
  have eq1: "removeTaskAndDescendants req root =
          (length (map (cleanUp ?D) (filter (\<lambda>t. task_id t \<notin> ?D) ?ts1)) < length ?ts,
           req\<lparr>tasks := map (cleanUp ?D) (filter (\<lambda>t. task_id t \<notin> ?D) ?ts1)\<rparr>)"
    using assms
    by (simp add: removeTaskAndDescendants_def Let_def collect_descendants del: collect.simps)
  have eq2: "map (cleanUp ?D) (filter (\<lambda>t. task_id t \<notin> ?D) ?ts1) =
             map (\<lambda>j. cleanUp ?D (?ts1 ! j)) (survivors ?ts ?D)"
    unfolding flt by simp
  show ?thesis
    unfolding eq1 eq2 using shorter by simp
qed

lemma removeTaskAndDescendants_missing:
  assumes "taskMap (tasks req) root = None"
  shows "removeTaskAndDescendants req root = (False, req)"
  using assms by (simp add: removeTaskAndDescendants_def)


lemma survivors_bound:
  assumes "m < length (survivors ts D)"
  shows "survivors ts D ! m < length ts \<and> task_id (ts ! (survivors ts D ! m)) \<notin> D"
proof -
  have "survivors ts D ! m \<in> set (survivors ts D)"
    using assms by simp
  then show ?thesis by (simp add: survivors_def)
qed

lemma map_survivors:
  "map (\<lambda>j. f (ts ! j)) (survivors ts D) = map f (filter (\<lambda>t. task_id t \<notin> D) ts)"
proof -
  have "map f (filter (\<lambda>t. task_id t \<notin> D) ts) = map f (map ((!) ts) (survivors ts D))"
    unfolding survivors_def by (subst filter_by_positions) simp
  then show ?thesis by (simp add: comp_def)
qed

lemma removed_field:
  assumes "taskMap (tasks req) root = Some r"
      and "\<And>t. f (cleanUp (descendants (tasks req) root) t) = f t"
      and "\<And>t x. f (t\<lparr>subtaskIds := x\<rparr>) = f t"
  shows "map f (tasks (snd (removeTaskAndDescendants req root))) =
           map f (filter (\<lambda>t. task_id t \<notin> descendants (tasks req) root) (tasks req))"
proof -
  let ?ts = "tasks req"
  let ?D = "descendants ?ts root"
  have "map f (tasks (snd (removeTaskAndDescendants req root))) =
          map (\<lambda>j. f (unlinkFromParent ?ts r root ! j)) (survivors ?ts ?D)"
    by (simp add: removeTaskAndDescendants_found[OF assms(1)] comp_def assms(2))
  also have "\<dots> = map (\<lambda>j. f (?ts ! j)) (survivors ?ts ?D)"
  proof (rule map_cong[OF refl])
    fix j assume "j \<in> set (survivors ?ts ?D)"
    then have "j < length ?ts" by (simp add: survivors_def)
    then show "f (unlinkFromParent ?ts r root ! j) = f (?ts ! j)"
      by (simp add: nth_unlinkFromParent assms(3))
  qed
  finally show ?thesis by (simp add: map_survivors)
qed

lemma taskMap_exists: "root \<in> task_id ` set ts \<Longrightarrow> \<exists>r. taskMap ts root = Some r"
  using taskMap_None[of ts root] by auto

lemma findIndex_task_exists:
  "(\<exists>i. findIndex (\<lambda>t. task_id t = x) ts = Some i) \<longleftrightarrow> x \<in> task_id ` set ts"
  using findIndex_None[of "\<lambda>t. task_id t = x" ts] by (cases "findIndex (\<lambda>t. task_id t = x) ts") auto

subsection \<open>Cycle detection\<close>

lemma detect_reports:
  "\<not> cycleFound st \<Longrightarrow> reports st (detectCycle ts taskId st)"
  "\<not> cycleFound st \<Longrightarrow> reports st (detectDeps ts taskId deps st)"
proof (induction ts taskId st and ts taskId deps st rule: detectCycle_detectDeps.induct)
  case (1 ts taskId st)
  show ?case
  proof (cases "taskMap ts taskId")
    case None
    with 1 show ?thesis
      by (simp add: detectCycle.simps reports_def enter_def leave_def)
  next
    case (Some i)
    show ?thesis
    proof (cases "dependsOn (ts ! i)")
      case None
      with Some 1 show ?thesis
        by (simp add: detectCycle.simps reports_def enter_def leave_def)
    next
      case (Some deps)
      have "reports (enter taskId st) (detectDeps ts taskId deps (enter taskId st))"
        using 1 \<open>taskMap ts taskId = Some i\<close> Some by (simp add: enter_def)
      then show ?thesis
        using 1(2) \<open>taskMap ts taskId = Some i\<close> Some
        by (auto simp: detectCycle.simps[of ts taskId st] Let_def reports_def enter_def leave_def)
    qed
  qed
next
  case (2 ts taskId st)
  then show ?case by (simp add: reports_def)
next
  case (3 ts taskId depId rest st)
  show ?case
  proof (cases "taskMap ts depId = None")
    case True
    with 3 show ?thesis by simp
  next
    case False
    show ?thesis
    proof (cases "depId \<in> visited st")
      case True
      with False 3 show ?thesis
        by (auto simp: reports_def)
    next
      case unvisited: False
      let ?st' = "detectCycle ts depId st"
      have r1: "reports st ?st'" using 3 False unvisited by simp
      show ?thesis
      proof (cases "cycleFound ?st'")
        case True
        with False unvisited r1 show ?thesis by (auto simp: Let_def)
      next
        case nf: False
        then have "reports ?st' (detectDeps ts taskId rest ?st')"
          using 3 False unvisited by simp
        with r1 nf have "reports st (detectDeps ts taskId rest ?st')"
          by (auto simp: reports_def)
        with False unvisited nf show ?thesis by (auto simp: Let_def)
      qed
    qed
  qed
qed

lemma detectAll_found: "cycleFound st \<Longrightarrow> detectAll ts xs st = st"
  by (induction xs) auto

lemma detectAll_reports: "\<not> cycleFound st \<Longrightarrow> reports st (detectAll ts xs st)"
proof (induction xs arbitrary: st)
  case Nil
  then show ?case by (simp add: reports_def)
next
  case (Cons t xs)
  show ?case
  proof (cases "task_id t \<in> visited st")
    case True
    with Cons show ?thesis by simp
  next
    case False
    let ?st' = "detectCycle ts (task_id t) st"
    have r1: "reports st ?st'" using Cons.prems by (rule detect_reports(1))
    show ?thesis
    proof (cases "cycleFound ?st'")
      case True
      with False Cons.prems r1 show ?thesis by (simp add: detectAll_found)
    next
      case nf: False
      then have "reports ?st' (detectAll ts xs ?st')" by (rule Cons.IH)
      with r1 nf have "reports st (detectAll ts xs ?st')" by (auto simp: reports_def)
      with False Cons.prems show ?thesis by simp
    qed
  qed
qed

















lemma validate_issues:
  assumes "st = detectAll ts ts \<lparr>visited = {}, recursionStack = {}, cycleFound = False,
                                issues = danglingIssues ts\<rparr>"
  shows "reports \<lparr>visited = {}, recursionStack = {}, cycleFound = False,
                  issues = danglingIssues ts\<rparr> st"
  unfolding assms by (rule detectAll_reports) simp

subsection \<open>Invariants of the operations\<close>

lemma reachable_execute: "reachable s \<Longrightarrow> reachable (execute ops s)"
  unfolding execute_def
  by (induction ops arbitrary: s) (auto intro: reachable.step)

lemma in_set_update: "t \<in> set (xs[i := v]) \<Longrightarrow> t = v \<or> t \<in> set xs"
  using set_update_subset_insert[of xs i v] by auto

lemma withRequest_sound:
  assumes f: "\<And>req. sound req \<Longrightarrow> sound (snd (f req))"
      and s: "\<forall>r\<in>set (requests s). sound r"
  shows "\<forall>r\<in>set (requests (snd (withRequest s rid f))). sound r"
proof (cases "findIndex (\<lambda>r. requestId r = rid) (requests s)")
  case None
  with s show ?thesis by (simp add: withRequest_missing)
next
  case (Some k)
  then have k: "k < length (requests s)" using findIndex_Some by blast
  then have "sound (snd (f (requests s ! k)))" using f s by simp
  with s show ?thesis
    by (auto simp: withRequest_found[OF Some] dest: in_set_update)
qed

lemma clean_activate:
  assumes "\<forall>t\<in>set ts. clean t" "i < length ts \<longrightarrow> status (ts ! i) \<noteq> Failed"
  shows "\<forall>t\<in>set (activate ts i). clean t"
proof
  fix t assume "t \<in> set (activate ts i)"
  then have "t = (ts ! i)\<lparr>status := Active\<rparr> \<or> t \<in> set ts"
    unfolding activate_def by (rule in_set_update)
  then show "clean t"
  proof
    assume t: "t = (ts ! i)\<lparr>status := Active\<rparr>"
    show ?thesis
    proof (cases "i < length ts")
      case True
      then have "clean (ts ! i)" "status (ts ! i) \<noteq> Failed" using assms by simp_all
      then show ?thesis by (simp add: t clean_def)
    next
      case False
      then have "activate ts i = ts" by (simp add: activate_def list_update_beyond)
      with \<open>t \<in> set (activate ts i)\<close> assms(1) show ?thesis by simp
    qed
  next
    assume "t \<in> set ts"
    with assms(1) show ?thesis by simp
  qed
qed

lemma selectNext_sound:
  assumes "sound req"
  shows "sound (snd (selectNext req))"
proof (cases "completed req")
  case True
  with assms show ?thesis by (simp add: selectNext_def)
next
  case nc: False
  let ?ts = "tasks req"
  show ?thesis
  proof (cases "sort_by (compareTasks ?ts) (potentialNextTasks ?ts)")
    case Nil
    then have "potentialNextTasks ?ts = []" by (simp add: sort_by_Nil)
    with nc assms show ?thesis
      by (auto simp: selectNext_def sound_def list_all_iff)
  next
    case (Cons n rest)
    show ?thesis
    proof (cases "status (?ts ! n) = Pending")
      case False
      with assms show ?thesis by (simp add: selectNext_head[OF nc Cons])
    next
      case True
      define ts1 where "ts1 = (case parentOf ?ts (?ts ! n) of
                            None \<Rightarrow> ?ts
                          | Some p \<Rightarrow> if status (?ts ! p) = Pending then activate ?ts p else ?ts)"
      have res: "snd (selectNext req) = req\<lparr>tasks := activate ts1 n\<rparr>"
        using True by (simp add: selectNext_head[OF nc Cons] Let_def ts1_def)
      have c0: "\<forall>t\<in>set ?ts. clean t" using assms by (simp add: sound_def)
      have c1: "\<forall>t\<in>set ts1. clean t"
      proof (cases "parentOf ?ts (?ts ! n)")
        case None
        with c0 show ?thesis by (simp add: ts1_def)
      next
        case (Some p)
        show ?thesis
        proof (cases "status (?ts ! p) = Pending")
          case True
          then have "\<forall>t\<in>set (activate ?ts p). clean t"
            by (intro clean_activate c0) simp
          with Some True show ?thesis by (simp add: ts1_def)
        next
          case False
          with Some c0 show ?thesis by (simp add: ts1_def)
        qed
      qed
      have len1: "length ts1 = length ?ts"
        by (simp add: ts1_def length_activate split: option.splits)
      have "status (ts1 ! n) \<noteq> Failed" if "n < length ts1"
        using that True len1
        by (auto simp: ts1_def nth_activate split: option.splits if_splits)
      then have "\<forall>t\<in>set (activate ts1 n). clean t"
        by (intro clean_activate c1) simp
      with nc show ?thesis by (simp add: res sound_def)
    qed
  qed
qed

lemma autoCompleteParent_cases:
  "autoCompleteParent details ts i = ts \<or>
   (\<exists>p. p < length ts \<and> (status (ts ! p) = Pending \<or> status (ts ! p) = Active) \<and>
        autoCompleteParent details ts i = ts[p := (ts ! p)\<lparr>status := Done, completedDetails := details\<rparr>])"
  by (auto simp: autoCompleteParent_def split: option.splits dest: findIndex_Some)

lemma clean_autoCompleteParent:
  assumes "\<forall>t\<in>set ts. clean t"
  shows "\<forall>t\<in>set (autoCompleteParent details ts i). clean t"
proof -
  from autoCompleteParent_cases[of details ts i] show ?thesis
  proof
    assume "autoCompleteParent details ts i = ts"
    with assms show ?thesis by simp
  next
    assume "\<exists>p. p < length ts \<and> (status (ts ! p) = Pending \<or> status (ts ! p) = Active) \<and>
        autoCompleteParent details ts i = ts[p := (ts ! p)\<lparr>status := Done, completedDetails := details\<rparr>]"
    then obtain p where p: "p < length ts" "status (ts ! p) = Pending \<or> status (ts ! p) = Active"
      "autoCompleteParent details ts i = ts[p := (ts ! p)\<lparr>status := Done, completedDetails := details\<rparr>]"
      by blast
    have "clean (ts ! p)" using assms p(1) by simp
    then have "clean ((ts ! p)\<lparr>status := Done, completedDetails := details\<rparr>)"
      using p(2) by (auto simp: clean_def)
    with assms show ?thesis
      unfolding p(3) by (auto dest: in_set_update)
  qed
qed

lemma sound_completeRequest:
  assumes "\<forall>t\<in>set (tasks req). clean t" "completed req \<longrightarrow> (\<forall>t\<in>set (tasks req). terminal t)"
  shows "sound (completeRequest req)"
  using assms by (auto simp: completeRequest_def sound_def list_all_iff)

lemma markDone_sound:
  assumes "sound req"
  shows "sound (snd (markDone taskId details req))"
proof (cases "findIndex (\<lambda>t. task_id t = taskId) (tasks req)")
  case None
  with assms show ?thesis by (simp add: markDone_def)
next
  case (Some i)
  let ?ts = "tasks req"
  have i: "i < length ?ts" using findIndex_Some[OF Some] by simp
  show ?thesis
  proof (cases "status (?ts ! i) = Done \<or> status (?ts ! i) = Failed")
    case True
    with Some assms show ?thesis by (auto simp: markDone_def)
  next
    case False
    let ?t = "(?ts ! i)\<lparr>status := Done,
                         completedDetails := or_else details ''Completed successfully'',
                         failureReason := None\<rparr>"
    let ?ts2 = "autoCompleteParent ''Automatically completed as all subtasks are terminal.''
                  (?ts[i := ?t]) i"
    have res: "snd (markDone taskId details req) = completeRequest (req\<lparr>tasks := ?ts2\<rparr>)"
      using Some False by (simp add: markDone_def Let_def)
    have "\<not> terminal (?ts ! i)" using False by (simp add: terminal_def)
    then have nc: "\<not> completed req" using assms i by (auto simp: sound_def)
    have "clean ?t" by (simp add: clean_def)
    then have "\<forall>t\<in>set (?ts[i := ?t]). clean t"
      using assms by (auto simp: sound_def dest: in_set_update)
    then have "\<forall>t\<in>set ?ts2. clean t" by (rule clean_autoCompleteParent)
    then show ?thesis
      unfolding res using nc by (intro sound_completeRequest) simp_all
  qed
qed

lemma markFailed_sound:
  assumes "sound req"
  shows "sound (snd (markFailed taskId reason req))"
proof (cases "findIndex (\<lambda>t. task_id t = taskId) (tasks req)")
  case None
  with assms show ?thesis by (simp add: markFailed_def)
next
  case (Some i)
  let ?ts = "tasks req"
  have i: "i < length ?ts" using findIndex_Some[OF Some] by simp
  show ?thesis
  proof (cases "status (?ts ! i) = Done \<or> status (?ts ! i) = Failed")
    case True
    with Some assms show ?thesis by (auto simp: markFailed_def)
  next
    case False
    let ?t = "(?ts ! i)\<lparr>status := Failed,
                         failureReason := Some (or_else reason ''No reason provided''),
                         completedDetails := []\<rparr>"
    let ?ts2 = "autoCompleteParent
                  ''Automatically completed as all subtasks are terminal (some may have failed).''
                  (?ts[i := ?t]) i"
    have res: "snd (markFailed taskId reason req) = completeRequest (req\<lparr>tasks := ?ts2\<rparr>)"
      using Some False by (simp add: markFailed_def Let_def)
    have "\<not> terminal (?ts ! i)" using False by (simp add: terminal_def)
    then have nc: "\<not> completed req" using assms i by (auto simp: sound_def)
    have "clean ?t" by (simp add: clean_def)
    then have "\<forall>t\<in>set (?ts[i := ?t]). clean t"
      using assms by (auto simp: sound_def dest: in_set_update)
    then have "\<forall>t\<in>set ?ts2. clean t" by (rule clean_autoCompleteParent)
    then show ?thesis
      unfolding res using nc by (intro sound_completeRequest) simp_all
  qed
qed


lemma addDep_sound:
  assumes "sound req"
  shows "sound (snd (addDep taskId depId req))"
proof -
  have upd: "sound (req\<lparr>tasks := (tasks req)[i := (tasks req ! i)\<lparr>dependsOn := d\<rparr>]\<rparr>)"
    if "i < length (tasks req)" for i d
  proof -
    have "clean ((tasks req ! i)\<lparr>dependsOn := d\<rparr>)"
      using assms that by (simp add: sound_def clean_def)
    moreover have "terminal ((tasks req ! i)\<lparr>dependsOn := d\<rparr>)" if "completed req"
      using assms that \<open>i < length (tasks req)\<close> by (simp add: sound_def terminal_def)
    ultimately show ?thesis
      using assms by (auto simp: sound_def dest!: in_set_update)
  qed
  show ?thesis
    using assms upd
    by (auto simp: addDep_def Let_def split: option.splits dest: findIndex_Some)
qed

lemma removeDep_sound:
  assumes "sound req"
  shows "sound (snd (removeDep taskId depId req))"
proof -
  have upd: "sound (req\<lparr>tasks := (tasks req)[i := (tasks req ! i)\<lparr>dependsOn := d\<rparr>]\<rparr>)"
    if "i < length (tasks req)" for i d
  proof -
    have "clean ((tasks req ! i)\<lparr>dependsOn := d\<rparr>)"
      using assms that by (simp add: sound_def clean_def)
    moreover have "terminal ((tasks req ! i)\<lparr>dependsOn := d\<rparr>)" if "completed req"
      using assms that \<open>i < length (tasks req)\<close> by (simp add: sound_def terminal_def)
    ultimately show ?thesis
      using assms by (auto simp: sound_def dest!: in_set_update)
  qed
  show ?thesis
    using assms upd
    by (auto simp: removeDep_def Let_def split: option.splits dest: findIndex_Some)
qed

lemma update_sound:
  assumes "sound req"
  shows "sound (snd (update taskId a b c req))"
proof (cases "findIndex (\<lambda>t. task_id t = taskId) (tasks req)")
  case None
  with assms show ?thesis by (simp add: update_def)
next
  case (Some i)
  have i: "i < length (tasks req)" using findIndex_Some[OF Some] by simp
  show ?thesis
  proof (cases "terminal (tasks req ! i)")
    case True
    with Some assms show ?thesis by (simp add: update_def)
  next
    case False
    then have nc: "\<not> completed req" using assms i by (auto simp: sound_def)
    let ?t = "(tasks req ! i)\<lparr>title := or_else a (title (tasks req ! i)),
                 description := or_else b (description (tasks req ! i)),
                 priority := (case c of None \<Rightarrow> priority (tasks req ! i) | Some p \<Rightarrow> p)\<rparr>"
    have "clean ?t" using assms i by (simp add: sound_def clean_def)
    then have "sound (req\<lparr>tasks := (tasks req)[i := ?t]\<rparr>)"
      using assms nc by (auto simp: sound_def dest!: in_set_update)
    with Some False show ?thesis by (simp add: update_def Let_def)
  qed
qed

lemma unlinkFromParent_elems:
  assumes "u \<in> set (unlinkFromParent ts r x)"
  shows "\<exists>t\<in>set ts. \<exists>v. u = t \<or> u = t\<lparr>subtaskIds := v\<rparr>"
proof (cases "\<exists>p ids. parentOf ts (ts ! r) = Some p \<and> subtaskIds (ts ! p) = Some ids")
  case False
  then have "unlinkFromParent ts r x = ts"
    by (auto simp: unlinkFromParent_def split: option.splits)
  with assms show ?thesis by auto
next
  case True
  then obtain p ids where p: "parentOf ts (ts ! r) = Some p" "subtaskIds (ts ! p) = Some ids"
    by blast
  then have "p < length ts"
    using taskMap_Some[of ts _ p] by (auto simp: parentOf_def split: option.splits if_splits)
  then have "ts ! p \<in> set ts" by simp
  moreover obtain v where "unlinkFromParent ts r x = ts[p := (ts ! p)\<lparr>subtaskIds := v\<rparr>]"
    using p by (simp add: unlinkFromParent_def Let_def)
  ultimately show ?thesis
    using assms by (auto dest!: in_set_update)
qed

lemma removeTaskAndDescendants_keeps:
  assumes "t' \<in> set (tasks (snd (removeTaskAndDescendants req root)))"
  shows "\<exists>t\<in>set (tasks req). status t' = status t \<and> failureReason t' = failureReason t \<and>
                               completedDetails t' = completedDetails t"
proof (cases "taskMap (tasks req) root")
  case None
  with assms show ?thesis by (auto simp: removeTaskAndDescendants_def)
next
  case (Some r)
  with assms obtain u del where u: "u \<in> set (unlinkFromParent (tasks req) r root)" "t' = cleanUp del u"
    by (auto simp: removeTaskAndDescendants_def Let_def simp del: collect.simps)
  from unlinkFromParent_elems[OF u(1)] obtain t v where
    "t \<in> set (tasks req)" "u = t \<or> u = t\<lparr>subtaskIds := v\<rparr>" by blast
  then show ?thesis
    using u(2) by (auto simp: cleanUp_def)
qed

lemma completed_removeTaskAndDescendants:
  "completed (snd (removeTaskAndDescendants req root)) = completed req"
  by (simp add: removeTaskAndDescendants_def Let_def split: option.splits del: collect.simps)

lemma removeTaskAndDescendants_sound:
  assumes "sound req"
  shows "sound (snd (removeTaskAndDescendants req root))"
proof -
  have "clean t' \<and> (completed req \<longrightarrow> terminal t')"
    if "t' \<in> set (tasks (snd (removeTaskAndDescendants req root)))" for t'
  proof -
    from removeTaskAndDescendants_keeps[OF that] obtain t where
      t: "t \<in> set (tasks req)" "status t' = status t" "failureReason t' = failureReason t"
         "completedDetails t' = completedDetails t" by blast
    then have "clean t" "completed req \<longrightarrow> terminal t"
      using assms by (auto simp: sound_def)
    with t show ?thesis by (simp add: clean_def terminal_def)
  qed
  then show ?thesis
    by (simp add: sound_def completed_removeTaskAndDescendants)
qed

lemma delete_sound:
  assumes "sound req"
  shows "sound (snd (delete taskId req))"
  using assms removeTaskAndDescendants_sound[OF assms, of taskId]
  by (auto simp: delete_def split: option.splits prod.splits)

lemma removeSub_sound:
  assumes "sound req"
  shows "sound (snd (removeSub subtaskId parentTaskId req))"
  using assms removeTaskAndDescendants_sound[OF assms, of subtaskId]
  by (auto simp: removeSub_def Let_def split: option.splits prod.splits)

lemma clean_newTask: "clean (newTask n d)"
  by (simp add: newTask_def clean_def)

lemma clean_newTasks: "\<forall>t\<in>set (newTasks c defs). clean t"
  by (induction defs arbitrary: c) (simp_all add: clean_newTask)

lemma requestPlanning_sound:
  assumes "\<forall>r\<in>set (requests s). sound r"
  shows "\<forall>r\<in>set (requests (snd (requestPlanning s orig defs split))). sound r"
  using assms clean_newTasks by (auto simp: requestPlanning_def Let_def sound_def)

lemma addTasksToRequest_sound:
  assumes "\<forall>r\<in>set (requests s). sound r"
  shows "\<forall>r\<in>set (requests (snd (addTasksToRequest s rid defs))). sound r"
proof (cases "findIndex (\<lambda>r. requestId r = rid) (requests s)")
  case None
  with assms show ?thesis by (simp add: addTasksToRequest_def)
next
  case (Some k)
  then have k: "k < length (requests s)" using findIndex_Some by blast
  show ?thesis
  proof (cases "completed (requests s ! k)")
    case True
    with Some assms show ?thesis by (simp add: addTasksToRequest_def)
  next
    case False
    have "sound (requests s ! k)" using assms k by simp
    then have "sound ((requests s ! k)\<lparr>tasks := tasks (requests s ! k) @ newTasks (taskCounter s) defs\<rparr>)"
      using False clean_newTasks by (auto simp: sound_def)
    with Some False assms show ?thesis
      by (auto simp: addTasksToRequest_def Let_def dest!: in_set_update)
  qed
qed

lemma addSubtask_sound:
  assumes "\<forall>r\<in>set (requests s). sound r"
  shows "\<forall>r\<in>set (requests (snd (addSubtask s rid pid ttl dsc prio deps))). sound r"
proof (cases "findIndex (\<lambda>r. requestId r = rid) (requests s)")
  case None
  with assms show ?thesis by (simp add: addSubtask_def)
next
  case (Some k)
  then have k: "k < length (requests s)" using findIndex_Some by blast
  let ?req = "requests s ! k"
  show ?thesis
  proof (cases "completed ?req")
    case True
    with Some assms show ?thesis by (simp add: addSubtask_def Let_def)
  next
    case nc: False
    show ?thesis
    proof (cases "findIndex (\<lambda>t. task_id t = pid) (tasks ?req)")
      case None
      with Some nc assms show ?thesis by (simp add: addSubtask_def Let_def)
    next
      case (Some p)
      have p: "p < length (tasks ?req)" using findIndex_Some[OF Some] by simp
      show ?thesis
      proof (cases "terminal (tasks ?req ! p)")
        case True
        with Some nc \<open>findIndex (\<lambda>r. requestId r = rid) (requests s) = Some k\<close> assms
        show ?thesis by (simp add: addSubtask_def Let_def)
      next
        case False
        obtain new ts2 where
          res: "snd (addSubtask s rid pid ttl dsc prio deps) =
                  s\<lparr>requests := (requests s)[k := ?req\<lparr>tasks := ts2\<rparr>],
                    taskCounter := Suc (taskCounter s)\<rparr>"
          and ts2: "ts2 = (tasks ?req @ [new])[p := ((tasks ?req @ [new]) ! p)\<lparr>subtaskIds :=
                       Some (ids_of (subtaskIds ((tasks ?req @ [new]) ! p)) @
                               [''task-'' @ show_nat (Suc (taskCounter s))])\<rparr>]"
          and new: "status new = Pending" "failureReason new = None"
          using Some nc False \<open>findIndex (\<lambda>r. requestId r = rid) (requests s) = Some k\<close>
          by (simp add: addSubtask_def Let_def ids_of_def)
        have sk: "sound ?req" using assms k by simp
        have cn: "clean new" using new by (simp add: clean_def)
        have "(tasks ?req @ [new]) ! p = tasks ?req ! p" using p by (simp add: nth_append)
        moreover have "clean (tasks ?req ! p)" using sk p by (simp add: sound_def)
        ultimately have "clean (((tasks ?req @ [new]) ! p)\<lparr>subtaskIds := v\<rparr>)" for v
          by (simp add: clean_def)
        then have "\<forall>t\<in>set ts2. clean t"
          using sk cn unfolding ts2 by (auto simp: sound_def dest!: in_set_update)
        then have "sound (?req\<lparr>tasks := ts2\<rparr>)" using nc by (simp add: sound_def)
        with assms show ?thesis
          unfolding res by (auto dest!: in_set_update)
      qed
    qed
  qed
qed

lemma run_sound:
  assumes "\<forall>r\<in>set (requests s). sound r"
  shows "\<forall>r\<in>set (requests (snd (run op s))). sound r"
proof (cases op)
  case (RequestPlanning orig defs split)
  then show ?thesis using requestPlanning_sound[OF assms] by simp
next
  case (GetNextTask rid)
  then show ?thesis
    using withRequest_sound[OF selectNext_sound assms] by (simp add: getNextTask_def)
next
  case (MarkTaskDone rid taskId details)
  then show ?thesis
    using withRequest_sound[OF markDone_sound assms] by (simp add: markTaskDone_def)
next
  case (MarkTaskFailed rid taskId reason)
  then show ?thesis
    using withRequest_sound[OF markFailed_sound assms] by (simp add: markTaskFailed_def)
next
  case (AddTasksToRequest rid defs)
  then show ?thesis using addTasksToRequest_sound[OF assms] by simp
next
  case (UpdateTask rid taskId a b c)
  then show ?thesis
    using withRequest_sound[OF update_sound assms] by (simp add: updateTask_def)
next
  case (AddDependency rid taskId depId)
  then show ?thesis
    using withRequest_sound[OF addDep_sound assms] by (simp add: addDependency_def)
next
  case (RemoveDependency rid taskId depId)
  then show ?thesis
    using withRequest_sound[OF removeDep_sound assms] by (simp add: removeDependency_def)
next
  case (DeleteTask rid taskId)
  then show ?thesis
    using withRequest_sound[OF delete_sound assms] by (simp add: deleteTask_def)
next
  case (AddSubtask rid pid ttl dsc prio deps)
  then show ?thesis using addSubtask_sound[OF assms] by simp
next
  case (RemoveSubtask rid subtaskId parentTaskId)
  then show ?thesis
    using withRequest_sound[OF removeSub_sound assms] by (simp add: removeSubtask_def)
qed

lemma reachable_sound: "reachable s \<Longrightarrow> \<forall>r\<in>set (requests s). sound r"
proof (induction rule: reachable.induct)
  case initial
  show ?case by (simp add: empty_store_def)
next
  case (step s op)
  from step.IH show ?case by (rule run_sound)
qed

subsection \<open>Assigned ids are numeric\<close>



















section \<open>Selection order (C1)\<close>



section \<open>Unmet dependencies block selection (C2)\<close>

text \<open>
  C2. Whenever \<^verbatim>\<open>get_next_task\<close> returns a task, every id in that task's
  \<^verbatim>\<open>dependsOn\<close> resolves to a task of the request whose status is done; an id that
  resolves to no task therefore blocks the selection.
\<close>

theorem getNextTask_dependencies_met:
  assumes "getNextTask s rid = (NextTask x, s')"
      and "dependsOn x = Some deps"
      and "d \<in> set deps"
  shows "\<exists>k j. findIndex (\<lambda>r. requestId r = rid) (requests s) = Some k \<and>
               taskMap (tasks (requests s ! k)) d = Some j \<and>
               j < length (tasks (requests s ! k)) \<and>
               task_id (tasks (requests s ! k) ! j) = d \<and>
               status (tasks (requests s ! k) ! j) = Done"
proof -
  obtain k where k: "findIndex (\<lambda>r. requestId r = rid) (requests s) = Some k"
    using assms(1) by (cases "findIndex (\<lambda>r. requestId r = rid) (requests s)")
      (auto simp: getNextTask_def withRequest_def)
  define req where "req = requests s ! k"
  define ts where "ts = tasks req"
  have sel: "fst (selectNext req) = NextTask x"
    using assms(1) k by (simp add: getNextTask_def withRequest_found req_def)
  then have nc: "\<not> completed req"
    by (auto simp: selectNext_def)
  have ne: "potentialNextTasks ts \<noteq> []"
    using sel nc by (auto simp: selectNext_def ts_def Let_def split: if_splits)
  then obtain n rest where hd: "sort_by (compareTasks ts) (potentialNextTasks ts) = n # rest"
    using sort_by_Nil[of "compareTasks ts" "potentialNextTasks ts"]
    by (cases "sort_by (compareTasks ts) (potentialNextTasks ts)") auto
  then have "n \<in> set (potentialNextTasks ts)"
    using set_sort_by[of "compareTasks ts" "potentialNextTasks ts"] by auto
  then have met: "areDependenciesMet ts (ts ! n)"
    using potentialNextTasks_props by blast
  have "x = (ts ! n)\<lparr>status := Active\<rparr>"
    using selectNext_returns[of req n rest] nc hd sel by (simp add: ts_def)
  then have "dependsOn (ts ! n) = Some deps"
    using assms(2) by simp
  with met assms(3) obtain j where j: "taskMap ts d = Some j" "status (ts ! j) = Done"
    by (auto simp: areDependenciesMet_def list_all_iff split: option.splits)
  with taskMap_Some[OF j(1)] k show ?thesis
    by (auto simp: ts_def req_def)
qed

theorem getNextTask_dependencies_met_witness:
  "\<exists>k j. findIndex (\<lambda>r. requestId r = ''req-1'') (requests store_XY) = Some k \<and>
         taskMap (tasks (requests store_XY ! k)) ''task-1'' = Some j \<and>
         j < length (tasks (requests store_XY ! k)) \<and>
         task_id (tasks (requests store_XY ! k) ! j) = ''task-1'' \<and>
         status (tasks (requests store_XY ! k) ! j) = Done"
proof -
  have h1: "getNextTask store_XY ''req-1'' =
              (NextTask \<lparr>task_id = ''task-2'', title = ''X'', description = ''second'',
                         status = Active, priority = Medium, dependsOn = Some [''task-1''],
                         parentId = None, subtaskIds = None, failureReason = None,
                         completedDetails = []\<rparr>,
               snd (getNextTask store_XY ''req-1''))"
    by code_simp
  show ?thesis
    using getNextTask_dependencies_met [OF h1, of "[''task-1'']" "''task-1''"] by simp
qed

section \<open>Activation on selection (C3)\<close>

text \<open>
  C3. Let \<open>n\<close> be the head of the sorted candidates. If it is pending, the selection
  sets its parent to active when that parent is pending, sets the candidate to active, and
  changes nothing else: every other task, the grandparent included, and every other
  request is as before. If it is already active, the state does not change at all.
\<close>

theorem getNextTask_activation:
  assumes "findIndex (\<lambda>r. requestId r = rid) (requests s) = Some k"
      and "ts = tasks (requests s ! k)"
      and "\<not> completed (requests s ! k)"
      and "sort_by (compareTasks ts) (potentialNextTasks ts) = n # rest"
      and "s' = snd (getNextTask s rid)"
      and "ts' = tasks (requests s' ! k)"
  shows "(status (ts ! n) = Active \<longrightarrow> s' = s) \<and>
         (status (ts ! n) = Pending \<longrightarrow>
            length ts' = length ts \<and>
            status (ts' ! n) = Active \<and>
            (\<forall>p. parentOf ts (ts ! n) = Some p \<and> status (ts ! p) = Pending
                   \<longrightarrow> status (ts' ! p) = Active) \<and>
            (\<forall>j<length ts. j \<noteq> n \<and> \<not> (parentOf ts (ts ! n) = Some j \<and> status (ts ! j) = Pending)
                   \<longrightarrow> ts' ! j = ts ! j) \<and>
            (\<forall>j<length ts. ts' ! j = ts ! j \<or> ts' ! j = (ts ! j)\<lparr>status := Active\<rparr>) \<and>
            (\<forall>p g. parentOf ts (ts ! n) = Some p \<and> parentOf ts (ts ! p) = Some g \<and> g \<noteq> n \<and> g \<noteq> p
                   \<longrightarrow> status (ts' ! g) = status (ts ! g)) \<and>
            completed (requests s' ! k) = completed (requests s ! k) \<and>
            length (requests s') = length (requests s) \<and>
            (\<forall>j. j \<noteq> k \<longrightarrow> requests s' ! j = requests s ! j))"
proof -
  define req where "req = requests s ! k"
  have k: "k < length (requests s)"
    using findIndex_Some[OF assms(1)] by simp
  have s': "s' = s\<lparr>requests := (requests s)[k := snd (selectNext req)]\<rparr>"
    using assms(5) by (simp add: getNextTask_def withRequest_found[OF assms(1)] req_def)
  have hd: "sort_by (compareTasks (tasks req)) (potentialNextTasks (tasks req)) = n # rest"
    using assms(2,4) by (simp add: req_def)
  have nc: "\<not> completed req" using assms(3) by (simp add: req_def)
  have "n \<in> set (potentialNextTasks ts)"
    using assms(4) set_sort_by[of "compareTasks ts" "potentialNextTasks ts"] by auto
  then have n: "n < length ts"
    using potentialNextTasks_props by blast
  have tsr: "tasks req = ts" using assms(2) by (simp add: req_def)
  have active: "s' = s" if "status (ts ! n) = Active"
  proof -
    have "snd (selectNext req) = req"
      using that by (simp add: selectNext_head[OF nc hd] tsr)
    then show ?thesis using s' by (simp add: req_def)
  qed
  have pending: "length ts' = length ts \<and>
            status (ts' ! n) = Active \<and>
            (\<forall>p. parentOf ts (ts ! n) = Some p \<and> status (ts ! p) = Pending
                   \<longrightarrow> status (ts' ! p) = Active) \<and>
            (\<forall>j<length ts. j \<noteq> n \<and> \<not> (parentOf ts (ts ! n) = Some j \<and> status (ts ! j) = Pending)
                   \<longrightarrow> ts' ! j = ts ! j) \<and>
            (\<forall>j<length ts. ts' ! j = ts ! j \<or> ts' ! j = (ts ! j)\<lparr>status := Active\<rparr>) \<and>
            (\<forall>p g. parentOf ts (ts ! n) = Some p \<and> parentOf ts (ts ! p) = Some g \<and> g \<noteq> n \<and> g \<noteq> p
                   \<longrightarrow> status (ts' ! g) = status (ts ! g)) \<and>
            completed (requests s' ! k) = completed (requests s ! k) \<and>
            length (requests s') = length (requests s) \<and>
            (\<forall>j. j \<noteq> k \<longrightarrow> requests s' ! j = requests s ! j)"
    if pend: "status (ts ! n) = Pending"
  proof -
    define ts1 where "ts1 = (case parentOf ts (ts ! n) of
                            None \<Rightarrow> ts
                          | Some p \<Rightarrow> if status (ts ! p) = Pending then activate ts p else ts)"
    have sel: "snd (selectNext req) = req\<lparr>tasks := activate ts1 n\<rparr>"
      using pend by (simp add: selectNext_head[OF nc hd] tsr Let_def ts1_def)
    have ts': "ts' = activate ts1 n"
      using assms(6) s' sel k by simp
    have len1: "length ts1 = length ts"
      by (simp add: ts1_def length_activate split: option.splits)
    have p_lt: "p < length ts" if "parentOf ts (ts ! n) = Some p" for p
      using that taskMap_Some[of ts _ p] by (auto simp: parentOf_def split: option.splits if_splits)
    have ts1_nth: "ts1 ! j = (if parentOf ts (ts ! n) = Some j \<and> status (ts ! j) = Pending
                              then (ts ! j)\<lparr>status := Active\<rparr> else ts ! j)"
      if "j < length ts" for j
      using that by (auto simp: ts1_def nth_activate split: option.splits)
    have ts'_nth: "ts' ! j = (if j = n then (ts ! j)\<lparr>status := Active\<rparr>
                              else if parentOf ts (ts ! n) = Some j \<and> status (ts ! j) = Pending
                              then (ts ! j)\<lparr>status := Active\<rparr> else ts ! j)"
      if "j < length ts" for j
      using that len1 ts1_nth[OF that] by (auto simp: ts' nth_activate)
    have c1: "length ts' = length ts" by (simp add: ts' length_activate len1)
    have c2: "status (ts' ! n) = Active" using n by (simp add: ts'_nth)
    have c3: "\<forall>p. parentOf ts (ts ! n) = Some p \<and> status (ts ! p) = Pending
                   \<longrightarrow> status (ts' ! p) = Active"
      using p_lt by (auto simp: ts'_nth)
    have c4: "\<forall>j<length ts. j \<noteq> n \<and> \<not> (parentOf ts (ts ! n) = Some j \<and> status (ts ! j) = Pending)
                   \<longrightarrow> ts' ! j = ts ! j"
      by (auto simp: ts'_nth)
    have c5: "\<forall>j<length ts. ts' ! j = ts ! j \<or> ts' ! j = (ts ! j)\<lparr>status := Active\<rparr>"
      by (auto simp: ts'_nth)
    have c6: "\<forall>p g. parentOf ts (ts ! n) = Some p \<and> parentOf ts (ts ! p) = Some g \<and> g \<noteq> n \<and> g \<noteq> p
                   \<longrightarrow> status (ts' ! g) = status (ts ! g)"
    proof (intro allI impI)
      fix p g
      assume a: "parentOf ts (ts ! n) = Some p \<and> parentOf ts (ts ! p) = Some g \<and> g \<noteq> n \<and> g \<noteq> p"
      then have "g < length ts"
        using taskMap_Some[of ts _ g] by (auto simp: parentOf_def split: option.splits if_splits)
      with a show "status (ts' ! g) = status (ts ! g)"
        by (auto simp: ts'_nth)
    qed
    have c7: "completed (requests s' ! k) = completed (requests s ! k)"
      using s' sel k by (simp add: req_def)
    have c8: "length (requests s') = length (requests s)"
      using s' by simp
    have c9: "\<forall>j. j \<noteq> k \<longrightarrow> requests s' ! j = requests s ! j"
      using s' by simp
    show ?thesis using c1 c2 c3 c4 c5 c6 c7 c8 c9 by blast
  qed
  show ?thesis using active pending by blast
qed


theorem getNextTask_activation_witness:
  "status (tasks (requests (snd (getNextTask store_GPC ''req-1'')) ! 0) ! 2) = Active \<and>
   status (tasks (requests (snd (getNextTask store_GPC ''req-1'')) ! 0) ! 1) = Active \<and>
   status (tasks (requests (snd (getNextTask store_GPC ''req-1'')) ! 0) ! 0) = Pending \<and>
   status (tasks (requests store_GPC ! 0) ! 0) = Pending"
proof -
  have h1: "findIndex (\<lambda>r. requestId r = ''req-1'') (requests store_GPC) = Some 0"
    by code_simp
  have h3: "\<not> completed (requests store_GPC ! 0)"
    by code_simp
  have h4: "sort_by (compareTasks (tasks (requests store_GPC ! 0)))
              (potentialNextTasks (tasks (requests store_GPC ! 0))) = 2 # [1, 0]"
    by code_simp
  have pend: "status (tasks (requests store_GPC ! 0) ! 2) = Pending"
    by code_simp
  have par: "parentOf (tasks (requests store_GPC ! 0)) (tasks (requests store_GPC ! 0) ! 2) = Some 1"
    by code_simp
  have par_pending: "status (tasks (requests store_GPC ! 0) ! 1) = Pending"
    by code_simp
  have gpar: "parentOf (tasks (requests store_GPC ! 0)) (tasks (requests store_GPC ! 0) ! 1) = Some 0"
    by code_simp
  have gpar_pending: "status (tasks (requests store_GPC ! 0) ! 0) = Pending"
    by code_simp
  note inst = getNextTask_activation [OF h1 refl h3 h4 refl refl]
  from inst pend
  have c2: "status (tasks (requests (snd (getNextTask store_GPC ''req-1'')) ! 0) ! 2) = Active"
    and c3: "\<forall>p. parentOf (tasks (requests store_GPC ! 0)) (tasks (requests store_GPC ! 0) ! 2) = Some p \<and>
                 status (tasks (requests store_GPC ! 0) ! p) = Pending \<longrightarrow>
                 status (tasks (requests (snd (getNextTask store_GPC ''req-1'')) ! 0) ! p) = Active"
    and c6: "\<forall>p g. parentOf (tasks (requests store_GPC ! 0)) (tasks (requests store_GPC ! 0) ! 2) = Some p \<and>
                   parentOf (tasks (requests store_GPC ! 0)) (tasks (requests store_GPC ! 0) ! p) = Some g \<and>
                   g \<noteq> 2 \<and> g \<noteq> p \<longrightarrow>
                   status (tasks (requests (snd (getNextTask store_GPC ''req-1'')) ! 0) ! g) =
                   status (tasks (requests store_GPC ! 0) ! g)"
    by blast+
  from c3 par par_pending
  have "status (tasks (requests (snd (getNextTask store_GPC ''req-1'')) ! 0) ! 1) = Active"
    by blast
  moreover from c6 par gpar
  have "status (tasks (requests (snd (getNextTask store_GPC ''req-1'')) ! 0) ! 0) =
        status (tasks (requests store_GPC ! 0) ! 0)"
    by (metis zero_neq_numeral zero_neq_one)
  ultimately show ?thesis
    using c2 gpar_pending by simp
qed

section \<open>Parent auto-completion (C4)\<close>

text \<open>
  C4. When \<^verbatim>\<open>mark_task_done\<close> or \<^verbatim>\<open>mark_task_failed\<close> moves a pending or active
  task into a terminal status, and its parent is pending or active, and every id in the
  parent's \<^verbatim>\<open>subtaskIds\<close> then refers to a terminal task (the marked task or one that
  was done or failed before), the parent becomes done. No task other than the marked one
  and its parent changes, so the grandparent is left as it was.
\<close>

theorem parent_auto_completion:
  assumes "findIndex (\<lambda>r. requestId r = rid) (requests s) = Some k"
      and "ts = tasks (requests s ! k)"
      and "findIndex (\<lambda>t. task_id t = taskId) ts = Some i"
      and "status (ts ! i) = Pending \<or> status (ts ! i) = Active"
      and "parentId (ts ! i) = Some pid" and "pid \<noteq> []" and "pid \<noteq> taskId"
      and "findIndex (\<lambda>t. task_id t = pid) ts = Some p"
      and "status (ts ! p) = Pending \<or> status (ts ! p) = Active"
      and "subtaskIds (ts ! p) = Some ids"
      and "\<forall>sid\<in>set ids. \<exists>j. findIndex (\<lambda>t. task_id t = sid) ts = Some j \<and>
                                 (j = i \<or> terminal (ts ! j))"
      and "tsD = tasks (requests (snd (markTaskDone s rid taskId details)) ! k)"
      and "tsF = tasks (requests (snd (markTaskFailed s rid taskId reason)) ! k)"
  shows "status (tsD ! i) = Done \<and> status (tsD ! p) = Done \<and> length tsD = length ts \<and>
         (\<forall>j<length ts. j \<noteq> i \<and> j \<noteq> p \<longrightarrow> tsD ! j = ts ! j) \<and>
         status (tsF ! i) = Failed \<and> status (tsF ! p) = Done \<and> length tsF = length ts \<and>
         (\<forall>j<length ts. j \<noteq> i \<and> j \<noteq> p \<longrightarrow> tsF ! j = ts ! j)"
proof -
  define req where "req = requests s ! k"
  have k: "k < length (requests s)"
    using findIndex_Some[OF assms(1)] by simp
  have i: "i < length ts" "task_id (ts ! i) = taskId"
    using findIndex_Some[OF assms(3)] by simp_all
  have p: "p < length ts" "task_id (ts ! p) = pid"
    using findIndex_Some[OF assms(8)] by simp_all
  have pi: "p \<noteq> i" using i p assms(7) by auto
  have tsr: "tasks req = ts" using assms(2) by (simp add: req_def)
  have nd: "status (ts ! i) \<noteq> Done" "status (ts ! i) \<noteq> Failed"
    using assms(4) by auto
  have fire: "autoCompleteParent msg (ts[i := t]) i =
                (ts[i := t])[p := (ts ! p)\<lparr>status := Done, completedDetails := msg\<rparr>]"
    if t: "task_id t = taskId" "parentId t = Some pid" "terminal t" for t msg
  proof -
    let ?ts1 = "ts[i := t]"
    have ids: "map task_id ?ts1 = map task_id ts"
      using t(1) i by (simp add: map_task_id_update)
    have a1: "parentId (?ts1 ! i) = Some pid" using i t by simp
    have a3: "findIndex (\<lambda>t. task_id t = pid) ?ts1 = Some p"
      using findIndex_same_ids[OF ids] assms(8) by simp
    have a4: "status (?ts1 ! p) = Pending \<or> status (?ts1 ! p) = Active"
      using pi assms(9) by simp
    have a5: "subtaskIds (?ts1 ! p) = Some ids" using pi assms(10) by simp
    have a6: "\<forall>sid\<in>set ids. \<exists>j. findIndex (\<lambda>t. task_id t = sid) ?ts1 = Some j \<and> terminal (?ts1 ! j)"
    proof
      fix sid assume "sid \<in> set ids"
      then obtain j where j: "findIndex (\<lambda>t. task_id t = sid) ts = Some j" "j = i \<or> terminal (ts ! j)"
        using assms(11) by blast
      have "terminal (?ts1 ! j)"
        using j(2) i t(3) by (cases "j = i") auto
      then show "\<exists>j. findIndex (\<lambda>t. task_id t = sid) ?ts1 = Some j \<and> terminal (?ts1 ! j)"
        using j(1) findIndex_same_ids[OF ids] by simp
    qed
    show ?thesis
      using autoCompleteParent_fires[OF a1 assms(6) a3 a4 a5 a6, of msg] pi by simp
  qed
  have D: "tsD = (ts[i := (ts ! i)\<lparr>status := Done,
                     completedDetails := or_else details ''Completed successfully'',
                     failureReason := None\<rparr>])
                   [p := (ts ! p)\<lparr>status := Done,
                     completedDetails := ''Automatically completed as all subtasks are terminal.''\<rparr>]"
    using assms(12) k nd i assms(3,5)
    by (simp add: markTaskDone_def withRequest_found[OF assms(1)] markDone_def req_def[symmetric]
          tsr Let_def tasks_completeRequest fire terminal_def)
  have F: "tsF = (ts[i := (ts ! i)\<lparr>status := Failed,
                     failureReason := Some (or_else reason ''No reason provided''),
                     completedDetails := []\<rparr>])
                   [p := (ts ! p)\<lparr>status := Done,
                     completedDetails :=
                       ''Automatically completed as all subtasks are terminal (some may have failed).''\<rparr>]"
    using assms(13) k nd i assms(3,5)
    by (simp add: markTaskFailed_def withRequest_found[OF assms(1)] markFailed_def req_def[symmetric]
          tsr Let_def tasks_completeRequest fire terminal_def)
  show ?thesis
    using i(1) p(1) pi by (simp add: D F)
qed


theorem parent_auto_completion_witness:
  "status (tasks (requests (snd (markTaskDone store_GPC ''req-1'' ''task-3'' None)) ! 0) ! 1) = Done \<and>
   tasks (requests (snd (markTaskDone store_GPC ''req-1'' ''task-3'' None)) ! 0) ! 0 =
     tasks (requests store_GPC ! 0) ! 0 \<and>
   status (tasks (requests (snd (markTaskFailed store_GPC ''req-1'' ''task-3'' None)) ! 0) ! 2) = Failed \<and>
   status (tasks (requests (snd (markTaskFailed store_GPC ''req-1'' ''task-3'' None)) ! 0) ! 1) = Done \<and>
   tasks (requests (snd (markTaskFailed store_GPC ''req-1'' ''task-3'' None)) ! 0) ! 0 =
     tasks (requests store_GPC ! 0) ! 0 \<and>
   status (tasks (requests store_GPC ! 0) ! 0) = Pending \<and>
   subtaskIds (tasks (requests store_GPC ! 0) ! 0) = Some [''task-2'']"
proof -
  have h1: "findIndex (\<lambda>r. requestId r = ''req-1'') (requests store_GPC) = Some 0"
    by code_simp
  have h3: "findIndex (\<lambda>t. task_id t = ''task-3'') (tasks (requests store_GPC ! 0)) = Some 2"
    by code_simp
  have h4: "status (tasks (requests store_GPC ! 0) ! 2) = Pending
            \<or> status (tasks (requests store_GPC ! 0) ! 2) = Active"
    by code_simp
  have h5: "parentId (tasks (requests store_GPC ! 0) ! 2) = Some ''task-2''"
    by code_simp
  have h6: "''task-2'' \<noteq> []" and h7: "''task-2'' \<noteq> ''task-3''"
    by simp_all
  have h8: "findIndex (\<lambda>t. task_id t = ''task-2'') (tasks (requests store_GPC ! 0)) = Some 1"
    by code_simp
  have h9: "status (tasks (requests store_GPC ! 0) ! 1) = Pending
            \<or> status (tasks (requests store_GPC ! 0) ! 1) = Active"
    by code_simp
  have h10: "subtaskIds (tasks (requests store_GPC ! 0) ! 1) = Some [''task-3'']"
    by code_simp
  have h11: "\<forall>sid\<in>set [''task-3''].
               \<exists>j. findIndex (\<lambda>t. task_id t = sid) (tasks (requests store_GPC ! 0)) = Some j \<and>
                   (j = 2 \<or> terminal (tasks (requests store_GPC ! 0) ! j))"
    using h3 by simp
  have len: "length (tasks (requests store_GPC ! 0)) = 3"
    by code_simp
  have top: "status (tasks (requests store_GPC ! 0) ! 0) = Pending \<and>
             subtaskIds (tasks (requests store_GPC ! 0) ! 0) = Some [''task-2'']"
    by code_simp
  show ?thesis
    using parent_auto_completion [OF h1 refl h3 h4 h5 h6 h7 h8 h9 h10 h11 refl refl,
            of None None] len top
    by simp
qed

section \<open>Cascading delete (C7)\<close>

text \<open>
  C7. The routine returns false exactly when the root id names no task, and then changes
  nothing. Otherwise the tasks that remain are, in their old order, those whose id is not
  the root or one of its descendants; each of them keeps its fields, except that
  \<^verbatim>\<open>dependsOn\<close> loses the ids of removed tasks, \<^verbatim>\<open>parentId\<close> is dropped when it names a
  removed task, and the root's former parent loses the root from its \<^verbatim>\<open>subtaskIds\<close>.
  No task carries the empty string as its id.
\<close>

theorem removeTaskAndDescendants_cascade:
  assumes "ts = tasks req"
      and "D = descendants ts root"
      and "[] \<notin> task_id ` set ts"
      and "req' = snd (removeTaskAndDescendants req root)"
      and "keep = survivors ts D"
  shows "(fst (removeTaskAndDescendants req root) = False \<longleftrightarrow> root \<notin> task_id ` set ts) \<and>
         (root \<notin> task_id ` set ts \<longrightarrow> req' = req) \<and>
         (root \<in> task_id ` set ts \<longrightarrow>
            map task_id (tasks req') = filter (\<lambda>x. x \<notin> D) (map task_id ts) \<and>
            length (tasks req') = length keep \<and>
            (\<forall>m<length keep.
               task_id (tasks req' ! m) = task_id (ts ! (keep ! m)) \<and>
               title (tasks req' ! m) = title (ts ! (keep ! m)) \<and>
               description (tasks req' ! m) = description (ts ! (keep ! m)) \<and>
               status (tasks req' ! m) = status (ts ! (keep ! m)) \<and>
               priority (tasks req' ! m) = priority (ts ! (keep ! m)) \<and>
               failureReason (tasks req' ! m) = failureReason (ts ! (keep ! m)) \<and>
               completedDetails (tasks req' ! m) = completedDetails (ts ! (keep ! m)) \<and>
               ids_of (dependsOn (tasks req' ! m)) =
                 filter (\<lambda>d. d \<notin> D) (ids_of (dependsOn (ts ! (keep ! m)))) \<and>
               parentId (tasks req' ! m) =
                 (case parentId (ts ! (keep ! m)) of
                    None \<Rightarrow> None
                  | Some q \<Rightarrow> if q \<in> D then None else Some q) \<and>
               (\<forall>r. taskMap ts root = Some r \<longrightarrow>
                  ids_of (subtaskIds (tasks req' ! m)) =
                    (if parentOf ts (ts ! r) = Some (keep ! m)
                     then filter (\<lambda>x. x \<noteq> root) (ids_of (subtaskIds (ts ! (keep ! m))))
                     else ids_of (subtaskIds (ts ! (keep ! m)))))))"
proof (cases "root \<in> task_id ` set ts")
  case False
  then have "taskMap ts root = None" by (simp add: taskMap_None)
  then have "removeTaskAndDescendants req root = (False, req)"
    using assms(1) by (simp add: removeTaskAndDescendants_missing)
  with False assms(4) show ?thesis by simp
next
  case True
  then obtain r where r: "taskMap ts root = Some r"
    using taskMap_exists by blast
  have found: "removeTaskAndDescendants req root =
           (True, req\<lparr>tasks := map (\<lambda>j. cleanUp D (unlinkFromParent ts r root ! j)) keep\<rparr>)"
    using removeTaskAndDescendants_found[of req root r] r assms(1,2,5) by simp
  have ts': "tasks req' = map (\<lambda>j. cleanUp D (unlinkFromParent ts r root ! j)) keep"
    using found assms(4) by simp
  have noempty: "[] \<notin> D"
    using descendants_are_tasks[OF True] assms(2,3) by blast
  have ids: "map task_id (tasks req') = filter (\<lambda>x. x \<notin> D) (map task_id ts)"
  proof -
    have "map task_id (tasks req') = map task_id (filter (\<lambda>t. task_id t \<notin> D) ts)"
      using removed_field[of req root r task_id] r assms(1,2,4)
      by (simp add: cleanUp_def)
    then show ?thesis by (simp add: filter_map comp_def)
  qed
  have each: "task_id (tasks req' ! m) = task_id (ts ! (keep ! m)) \<and>
               title (tasks req' ! m) = title (ts ! (keep ! m)) \<and>
               description (tasks req' ! m) = description (ts ! (keep ! m)) \<and>
               status (tasks req' ! m) = status (ts ! (keep ! m)) \<and>
               priority (tasks req' ! m) = priority (ts ! (keep ! m)) \<and>
               failureReason (tasks req' ! m) = failureReason (ts ! (keep ! m)) \<and>
               completedDetails (tasks req' ! m) = completedDetails (ts ! (keep ! m)) \<and>
               ids_of (dependsOn (tasks req' ! m)) =
                 filter (\<lambda>d. d \<notin> D) (ids_of (dependsOn (ts ! (keep ! m)))) \<and>
               parentId (tasks req' ! m) =
                 (case parentId (ts ! (keep ! m)) of
                    None \<Rightarrow> None
                  | Some q \<Rightarrow> if q \<in> D then None else Some q) \<and>
               (\<forall>r. taskMap ts root = Some r \<longrightarrow>
                  ids_of (subtaskIds (tasks req' ! m)) =
                    (if parentOf ts (ts ! r) = Some (keep ! m)
                     then filter (\<lambda>x. x \<noteq> root) (ids_of (subtaskIds (ts ! (keep ! m))))
                     else ids_of (subtaskIds (ts ! (keep ! m)))))"
    if m: "m < length keep" for m
  proof -
    define j where "j = keep ! m"
    have j: "j < length ts"
      using survivors_bound[of m ts D] m assms(5) by (simp add: j_def)
    have t': "tasks req' ! m = cleanUp D (unlinkFromParent ts r root ! j)"
      using m by (simp add: ts' j_def)
    have deps: "ids_of (dependsOn (cleanUp D t)) = filter (\<lambda>d. d \<notin> D) (ids_of (dependsOn t))" for t
      by (simp add: cleanUp_def ids_of_def Let_def split: option.splits)
    have par: "parentId (cleanUp D t) =
                 (case parentId t of None \<Rightarrow> None | Some q \<Rightarrow> if q \<in> D then None else Some q)" for t
      using noempty by (auto simp: cleanUp_def split: option.splits)
    define u where "u = unlinkFromParent ts r root ! j"
    have subs: "ids_of (subtaskIds u) =
                  (if parentOf ts (ts ! r) = Some j
                   then filter (\<lambda>x. x \<noteq> root) (ids_of (subtaskIds (ts ! j)))
                   else ids_of (subtaskIds (ts ! j)))"
      using j by (auto simp: u_def nth_unlinkFromParent ids_of_def)
    have u: "task_id u = task_id (ts ! j)" "title u = title (ts ! j)"
      "description u = description (ts ! j)" "status u = status (ts ! j)"
      "priority u = priority (ts ! j)" "failureReason u = failureReason (ts ! j)"
      "completedDetails u = completedDetails (ts ! j)" "dependsOn u = dependsOn (ts ! j)"
      "parentId u = parentId (ts ! j)"
      using j by (simp_all add: u_def nth_unlinkFromParent)
    have c: "task_id (cleanUp D u) = task_id u" "title (cleanUp D u) = title u"
      "description (cleanUp D u) = description u" "status (cleanUp D u) = status u"
      "priority (cleanUp D u) = priority u" "failureReason (cleanUp D u) = failureReason u"
      "completedDetails (cleanUp D u) = completedDetails u"
      "subtaskIds (cleanUp D u) = subtaskIds u"
      by (simp_all add: cleanUp_def)
    have same_r: "r' = r" if "taskMap ts root = Some r'" for r'
      using that r by simp
    show ?thesis
      unfolding t' j_def[symmetric] u_def[symmetric]
      using subs same_r by (simp add: c u deps par)
  qed
  have "fst (removeTaskAndDescendants req root) = True"
    using found by simp
  moreover have "length (tasks req') = length keep"
    by (simp add: ts')
  ultimately show ?thesis
    using True ids each by simp
qed


theorem removeTaskAndDescendants_cascade_witness:
  "fst (removeTaskAndDescendants (requests store_cascade ! 0) ''task-3'') = True \<and>
   filter (\<lambda>x. x \<notin> descendants (tasks (requests store_cascade ! 0)) ''task-3'')
     [''task-1'', ''task-2'', ''task-3'', ''task-4'', ''task-5''] = [''task-1'', ''task-2''] \<and>
   tasks (snd (removeTaskAndDescendants (requests store_cascade ! 0) ''task-3'')) =
     [\<lparr>task_id = ''task-1'', title = ''G'', description = ''top'', status = Pending,
       priority = Medium, dependsOn = None, parentId = None, subtaskIds = None,
       failureReason = None, completedDetails = []\<rparr>,
      \<lparr>task_id = ''task-2'', title = ''Z'', description = ''waits for C'', status = Pending,
       priority = Medium, dependsOn = None, parentId = None, subtaskIds = None,
       failureReason = None, completedDetails = []\<rparr>]"
proof -
  have h3: "[] \<notin> task_id ` set (tasks (requests store_cascade ! 0))"
    by code_simp
  have ex: "''task-3'' \<in> task_id ` set (tasks (requests store_cascade ! 0))"
    by code_simp
  have ids: "map task_id (tasks (requests store_cascade ! 0)) =
               [''task-1'', ''task-2'', ''task-3'', ''task-4'', ''task-5'']"
    by code_simp
  have res: "tasks (snd (removeTaskAndDescendants (requests store_cascade ! 0) ''task-3'')) =
     [\<lparr>task_id = ''task-1'', title = ''G'', description = ''top'', status = Pending,
       priority = Medium, dependsOn = None, parentId = None, subtaskIds = None,
       failureReason = None, completedDetails = []\<rparr>,
      \<lparr>task_id = ''task-2'', title = ''Z'', description = ''waits for C'', status = Pending,
       priority = Medium, dependsOn = None, parentId = None, subtaskIds = None,
       failureReason = None, completedDetails = []\<rparr>]"
    by code_simp
  note inst = removeTaskAndDescendants_cascade [OF refl refl h3 refl refl]
  from inst ex
  have "fst (removeTaskAndDescendants (requests store_cascade ! 0) ''task-3'') \<noteq> False"
    by blast
  moreover from inst ex
  have "map task_id (tasks (snd (removeTaskAndDescendants (requests store_cascade ! 0) ''task-3''))) =
        filter (\<lambda>x. x \<notin> descendants (tasks (requests store_cascade ! 0)) ''task-3'')
          (map task_id (tasks (requests store_cascade ! 0)))"
    by blast
  ultimately show ?thesis
    unfolding ids res by simp
qed

section \<open>Errors and effects of delete\_task (C10)\<close>

text \<open>
  C10. \<^verbatim>\<open>delete_task\<close> answers with an error exactly when the request id names no request
  or the task id names no task of that request. Otherwise, whatever the status of the
  task, it answers \<^verbatim>\<open>task_deleted\<close>: the task and its descendants are gone, the tasks that
  remain have the statuses and completion details they had, the request's
  \<^verbatim>\<open>completed\<close> flag is as before, and the other requests are untouched.
\<close>

theorem deleteTask_result:
  assumes "s' = snd (deleteTask s rid taskId)"
  shows "((\<exists>e. fst (deleteTask s rid taskId) = Error e) \<longleftrightarrow>
            findIndex (\<lambda>r. requestId r = rid) (requests s) = None \<or>
            (\<exists>k. findIndex (\<lambda>r. requestId r = rid) (requests s) = Some k \<and>
                 taskId \<notin> task_id ` set (tasks (requests s ! k)))) \<and>
         (\<forall>k. findIndex (\<lambda>r. requestId r = rid) (requests s) = Some k \<and>
              taskId \<in> task_id ` set (tasks (requests s ! k)) \<longrightarrow>
              fst (deleteTask s rid taskId) = TaskDeleted \<and>
              map task_id (tasks (requests s' ! k)) =
                filter (\<lambda>x. x \<notin> descendants (tasks (requests s ! k)) taskId)
                  (map task_id (tasks (requests s ! k))) \<and>
              taskId \<notin> task_id ` set (tasks (requests s' ! k)) \<and>
              map status (tasks (requests s' ! k)) =
                map status (filter (\<lambda>t. task_id t \<notin> descendants (tasks (requests s ! k)) taskId)
                              (tasks (requests s ! k))) \<and>
              map completedDetails (tasks (requests s' ! k)) =
                map completedDetails
                  (filter (\<lambda>t. task_id t \<notin> descendants (tasks (requests s ! k)) taskId)
                     (tasks (requests s ! k))) \<and>
              completed (requests s' ! k) = completed (requests s ! k) \<and>
              length (requests s') = length (requests s) \<and>
              (\<forall>j. j \<noteq> k \<longrightarrow> requests s' ! j = requests s ! j))"
proof (cases "findIndex (\<lambda>r. requestId r = rid) (requests s)")
  case None
  then show ?thesis
    by (simp add: deleteTask_def withRequest_missing)
next
  case (Some k)
  define req where "req = requests s ! k"
  have k: "k < length (requests s)"
    using findIndex_Some[OF Some] by simp
  have run: "deleteTask s rid taskId =
               (fst (delete taskId req), s\<lparr>requests := (requests s)[k := snd (delete taskId req)]\<rparr>)"
    by (simp add: deleteTask_def withRequest_found[OF Some] req_def)
  show ?thesis
  proof (cases "taskId \<in> task_id ` set (tasks req)")
    case False
    then have "findIndex (\<lambda>t. task_id t = taskId) (tasks req) = None"
      using findIndex_task_exists[of taskId "tasks req"] by auto
    then have "delete taskId req = (Error TaskNotFound, req)"
      by (simp add: delete_def)
    with False Some show ?thesis
      by (simp add: run req_def)
  next
    case True
    then obtain i where i: "findIndex (\<lambda>t. task_id t = taskId) (tasks req) = Some i"
      using findIndex_task_exists[of taskId "tasks req"] by auto
    obtain r where r: "taskMap (tasks req) taskId = Some r"
      using True taskMap_exists by blast
    let ?D = "descendants (tasks req) taskId"
    let ?req' = "snd (removeTaskAndDescendants req taskId)"
    have rem: "fst (removeTaskAndDescendants req taskId) = True"
      by (simp add: removeTaskAndDescendants_found[OF r])
    have del: "delete taskId req = (TaskDeleted, ?req')"
      using i by (simp add: delete_def removeTaskAndDescendants_found[OF r])
    have req': "requests s' ! k = ?req'"
      using assms run del k by simp
    have ids: "map task_id (tasks ?req') = filter (\<lambda>x. x \<notin> ?D) (map task_id (tasks req))"
    proof -
      have "map task_id (tasks ?req') = map task_id (filter (\<lambda>t. task_id t \<notin> ?D) (tasks req))"
        by (rule removed_field[OF r]) (simp_all add: cleanUp_def)
      then show ?thesis by (simp add: filter_map comp_def)
    qed
    have gone: "taskId \<notin> task_id ` set (tasks ?req')"
    proof -
      have "taskId \<notin> set (map task_id (tasks ?req'))"
        unfolding ids by (simp add: descendants.root)
      then show ?thesis by simp
    qed
    have st: "map status (tasks ?req') = map status (filter (\<lambda>t. task_id t \<notin> ?D) (tasks req))"
      by (rule removed_field[OF r]) (simp_all add: cleanUp_def)
    have cd: "map completedDetails (tasks ?req') =
                map completedDetails (filter (\<lambda>t. task_id t \<notin> ?D) (tasks req))"
      by (rule removed_field[OF r]) (simp_all add: cleanUp_def)
    have comp: "completed ?req' = completed req"
      by (simp add: removeTaskAndDescendants_found[OF r])
    have others: "length (requests s') = length (requests s)"
      "\<forall>j. j \<noteq> k \<longrightarrow> requests s' ! j = requests s ! j"
      using assms run by simp_all
    have res: "fst (deleteTask s rid taskId) = TaskDeleted"
      using run del by simp
    have main: "fst (deleteTask s rid taskId) = TaskDeleted \<and>
              map task_id (tasks (requests s' ! k)) =
                filter (\<lambda>x. x \<notin> descendants (tasks (requests s ! k)) taskId)
                  (map task_id (tasks (requests s ! k))) \<and>
              taskId \<notin> task_id ` set (tasks (requests s' ! k)) \<and>
              map status (tasks (requests s' ! k)) =
                map status (filter (\<lambda>t. task_id t \<notin> descendants (tasks (requests s ! k)) taskId)
                              (tasks (requests s ! k))) \<and>
              map completedDetails (tasks (requests s' ! k)) =
                map completedDetails
                  (filter (\<lambda>t. task_id t \<notin> descendants (tasks (requests s ! k)) taskId)
                     (tasks (requests s ! k))) \<and>
              completed (requests s' ! k) = completed (requests s ! k) \<and>
              length (requests s') = length (requests s) \<and>
              (\<forall>j. j \<noteq> k \<longrightarrow> requests s' ! j = requests s ! j)"
      using res ids gone st cd comp others unfolding req' req_def by blast
    have exists: "taskId \<in> task_id ` set (tasks (requests s ! k))"
      using True by (simp add: req_def)
    have "\<not> (\<exists>e. fst (deleteTask s rid taskId) = Error e)"
      using res by simp
    moreover have "\<not> (findIndex (\<lambda>r. requestId r = rid) (requests s) = None \<or>
            (\<exists>k. findIndex (\<lambda>r. requestId r = rid) (requests s) = Some k \<and>
                 taskId \<notin> task_id ` set (tasks (requests s ! k))))"
      using Some exists by simp
    moreover have "\<forall>k'. findIndex (\<lambda>r. requestId r = rid) (requests s) = Some k' \<and>
              taskId \<in> task_id ` set (tasks (requests s ! k')) \<longrightarrow> k' = k"
      using Some by simp
    ultimately show ?thesis
      using main by blast
  qed
qed


theorem deleteTask_result_witness:
  "status (tasks (requests store_XY ! 0) ! 0) = Done \<and>
   fst (deleteTask store_XY ''req-1'' ''task-1'') = TaskDeleted \<and>
   ''task-1'' \<notin> task_id ` set (tasks (requests (snd (deleteTask store_XY ''req-1'' ''task-1'')) ! 0)) \<and>
   completed (requests (snd (deleteTask store_XY ''req-1'' ''task-1'')) ! 0) =
     completed (requests store_XY ! 0)"
proof -
  have h: "findIndex (\<lambda>r. requestId r = ''req-1'') (requests store_XY) = Some 0 \<and>
           ''task-1'' \<in> task_id ` set (tasks (requests store_XY ! 0))"
    by code_simp
  have d: "status (tasks (requests store_XY ! 0) ! 0) = Done"
    by code_simp
  show ?thesis
    using deleteTask_result [OF refl, of store_XY "''req-1''" "''task-1''"] h d
    by blast
qed

section \<open>Dependency validation (C8)\<close>



section \<open>The completed flag (C5)\<close>

text \<open>
  C5, as stated, fails: a request planned with an empty task list, and a request whose
  last non-terminal task has been deleted, have only terminal tasks and yet are not
  completed. Both states are reachable.
\<close>

theorem completed_flag_counterexample:
  "reachable store_last_deleted \<and>
   map status (tasks (requests store_last_deleted ! 0)) = [Done] \<and>
   list_all terminal (tasks (requests store_last_deleted ! 0)) \<and>
   \<not> completed (requests store_last_deleted ! 0) \<and>
   reachable store_no_tasks \<and>
   tasks (requests store_no_tasks ! 0) = [] \<and>
   list_all terminal (tasks (requests store_no_tasks ! 0)) \<and>
   \<not> completed (requests store_no_tasks ! 0)"
proof -
  have "reachable store_last_deleted" "reachable store_no_tasks"
    unfolding store_last_deleted_def store_no_tasks_def
    by (rule reachable_execute, rule reachable.initial)+
  moreover have "map status (tasks (requests store_last_deleted ! 0)) = [Done]"
    "list_all terminal (tasks (requests store_last_deleted ! 0))"
    "\<not> completed (requests store_last_deleted ! 0)"
    "tasks (requests store_no_tasks ! 0) = []"
    "list_all terminal (tasks (requests store_no_tasks ! 0))"
    "\<not> completed (requests store_no_tasks ! 0)"
    by code_simp+
  ultimately show ?thesis by simp
qed

text \<open>
  C5, amended. In every reachable state a completed request has only terminal tasks.
  A successful \<^verbatim>\<open>mark_task_done\<close> or \<^verbatim>\<open>mark_task_failed\<close> in a reachable state leaves
  the request it acted on completed if and only if all its tasks are terminal, and
  reports that flag.
\<close>

theorem completed_flag_sound:
  assumes "reachable s"
  shows "(\<forall>r\<in>set (requests s). completed r \<longrightarrow> (\<forall>t\<in>set (tasks r). terminal t)) \<and>
         (\<forall>rid taskId details k t b.
            findIndex (\<lambda>r. requestId r = rid) (requests s) = Some k \<and>
            fst (markTaskDone s rid taskId details) = TaskMarkedDone t b \<longrightarrow>
            b = completed (requests (snd (markTaskDone s rid taskId details)) ! k) \<and>
            (b \<longleftrightarrow> (\<forall>t\<in>set (tasks (requests (snd (markTaskDone s rid taskId details)) ! k)).
                       terminal t))) \<and>
         (\<forall>rid taskId reason k t b.
            findIndex (\<lambda>r. requestId r = rid) (requests s) = Some k \<and>
            fst (markTaskFailed s rid taskId reason) = TaskMarkedFailed t b \<longrightarrow>
            b = completed (requests (snd (markTaskFailed s rid taskId reason)) ! k) \<and>
            (b \<longleftrightarrow> (\<forall>t\<in>set (tasks (requests (snd (markTaskFailed s rid taskId reason)) ! k)).
                       terminal t)))"
proof -
  have snd: "\<forall>r\<in>set (requests s). sound r"
    using assms by (rule reachable_sound)
  have inv: "\<forall>r\<in>set (requests s). completed r \<longrightarrow> (\<forall>t\<in>set (tasks r). terminal t)"
    using snd by (simp add: sound_def)
  have flag: "completed (completeRequest req) \<longleftrightarrow> (\<forall>t\<in>set (tasks req). terminal t)"
    if "\<not> completed req" for req
    using that by (simp add: completeRequest_def list_all_iff)
  have marked_done: "b = completed (requests (snd (markTaskDone s rid taskId details)) ! k) \<and>
            (b \<longleftrightarrow> (\<forall>t\<in>set (tasks (requests (snd (markTaskDone s rid taskId details)) ! k)).
                       terminal t))"
    if k: "findIndex (\<lambda>r. requestId r = rid) (requests s) = Some k"
      and res: "fst (markTaskDone s rid taskId details) = TaskMarkedDone t b"
    for rid taskId details k t b
  proof -
    let ?req = "requests s ! k"
    have kl: "k < length (requests s)" using findIndex_Some[OF k] by simp
    have run: "markTaskDone s rid taskId details =
                 (fst (markDone taskId details ?req),
                  s\<lparr>requests := (requests s)[k := snd (markDone taskId details ?req)]\<rparr>)"
      by (simp add: markTaskDone_def withRequest_found[OF k])
    from res run have r1: "fst (markDone taskId details ?req) = TaskMarkedDone t b" by simp
    then obtain i where i: "findIndex (\<lambda>t. task_id t = taskId) (tasks ?req) = Some i"
      by (cases "findIndex (\<lambda>t. task_id t = taskId) (tasks ?req)") (auto simp: markDone_def)
    have nt: "status (tasks ?req ! i) \<noteq> Done" "status (tasks ?req ! i) \<noteq> Failed"
      using r1 i by (auto simp: markDone_def split: if_splits)
    have il: "i < length (tasks ?req)" using findIndex_Some[OF i] by simp
    have "\<not> terminal (tasks ?req ! i)" using nt by (simp add: terminal_def)
    then have nc: "\<not> completed ?req" using inv kl il by fastforce
    obtain ts2 where
      r2: "markDone taskId details ?req =
             (TaskMarkedDone (ts2 ! i) (completed (completeRequest (?req\<lparr>tasks := ts2\<rparr>))),
              completeRequest (?req\<lparr>tasks := ts2\<rparr>))"
      using i nt by (simp add: markDone_def Let_def)
    have b: "b = completed (completeRequest (?req\<lparr>tasks := ts2\<rparr>))"
      using r1 r2 by simp
    have req': "requests (snd (markTaskDone s rid taskId details)) ! k =
                  completeRequest (?req\<lparr>tasks := ts2\<rparr>)"
      using run r2 kl by simp
    show ?thesis
      unfolding req' b using flag[of "?req\<lparr>tasks := ts2\<rparr>"] nc
      by (simp add: tasks_completeRequest)
  qed
  have marked_failed: "b = completed (requests (snd (markTaskFailed s rid taskId reason)) ! k) \<and>
            (b \<longleftrightarrow> (\<forall>t\<in>set (tasks (requests (snd (markTaskFailed s rid taskId reason)) ! k)).
                       terminal t))"
    if k: "findIndex (\<lambda>r. requestId r = rid) (requests s) = Some k"
      and res: "fst (markTaskFailed s rid taskId reason) = TaskMarkedFailed t b"
    for rid taskId reason k t b
  proof -
    let ?req = "requests s ! k"
    have kl: "k < length (requests s)" using findIndex_Some[OF k] by simp
    have run: "markTaskFailed s rid taskId reason =
                 (fst (markFailed taskId reason ?req),
                  s\<lparr>requests := (requests s)[k := snd (markFailed taskId reason ?req)]\<rparr>)"
      by (simp add: markTaskFailed_def withRequest_found[OF k])
    from res run have r1: "fst (markFailed taskId reason ?req) = TaskMarkedFailed t b" by simp
    then obtain i where i: "findIndex (\<lambda>t. task_id t = taskId) (tasks ?req) = Some i"
      by (cases "findIndex (\<lambda>t. task_id t = taskId) (tasks ?req)") (auto simp: markFailed_def)
    have nt: "status (tasks ?req ! i) \<noteq> Done" "status (tasks ?req ! i) \<noteq> Failed"
      using r1 i by (auto simp: markFailed_def split: if_splits)
    have il: "i < length (tasks ?req)" using findIndex_Some[OF i] by simp
    have "\<not> terminal (tasks ?req ! i)" using nt by (simp add: terminal_def)
    then have nc: "\<not> completed ?req" using inv kl il by fastforce
    obtain ts2 where
      r2: "markFailed taskId reason ?req =
             (TaskMarkedFailed (ts2 ! i) (completed (completeRequest (?req\<lparr>tasks := ts2\<rparr>))),
              completeRequest (?req\<lparr>tasks := ts2\<rparr>))"
      using i nt by (simp add: markFailed_def Let_def)
    have b: "b = completed (completeRequest (?req\<lparr>tasks := ts2\<rparr>))"
      using r1 r2 by simp
    have req': "requests (snd (markTaskFailed s rid taskId reason)) ! k =
                  completeRequest (?req\<lparr>tasks := ts2\<rparr>)"
      using run r2 kl by simp
    show ?thesis
      unfolding req' b using flag[of "?req\<lparr>tasks := ts2\<rparr>"] nc
      by (simp add: tasks_completeRequest)
  qed
  show ?thesis using inv marked_done marked_failed by blast
qed


theorem completed_flag_sound_witness:
  "completed (requests (snd (markTaskDone store_one_active ''req-1'' ''task-1'' None)) ! 0) \<and>
   list_all terminal
     (tasks (requests (snd (markTaskDone store_one_active ''req-1'' ''task-1'' None)) ! 0))"
proof -
  have r: "reachable store_one_active"
    unfolding store_one_active_def by (rule reachable_execute) (rule reachable.initial)
  have k: "findIndex (\<lambda>r. requestId r = ''req-1'') (requests store_one_active) = Some 0"
    by code_simp
  have m: "fst (markTaskDone store_one_active ''req-1'' ''task-1'' None) =
             TaskMarkedDone
               \<lparr>task_id = ''task-1'', title = ''Y'', description = ''only'', status = Done,
                priority = Medium, dependsOn = Some [], parentId = None, subtaskIds = None,
                failureReason = None, completedDetails = ''Completed successfully''\<rparr>
               True"
    by code_simp
  show ?thesis
    unfolding list_all_iff using completed_flag_sound [OF r] k m by blast
qed

section \<open>Terminal fields exclude each other (C9)\<close>

text \<open>
  C9. In every reachable state a task that is done has no failure reason, and a task that
  is failed has empty completion details. A parent completed automatically is covered: it
  was pending or active, and such a task never carries a failure reason.
\<close>

theorem terminal_fields_exclusive:
  assumes "reachable s"
  shows "\<forall>r\<in>set (requests s). \<forall>t\<in>set (tasks r).
           (status t = Done \<longrightarrow> failureReason t = None) \<and>
           (status t = Failed \<longrightarrow> completedDetails t = [])"
proof -
  have "\<forall>r\<in>set (requests s). sound r"
    using assms by (rule reachable_sound)
  then show ?thesis
    by (auto simp: sound_def clean_def)
qed

theorem terminal_fields_exclusive_witness:
  "status (tasks (requests store_failed_leaf ! 0) ! 1) = Done \<and>
   failureReason (tasks (requests store_failed_leaf ! 0) ! 1) = None \<and>
   status (tasks (requests store_failed_leaf ! 0) ! 2) = Failed \<and>
   completedDetails (tasks (requests store_failed_leaf ! 0) ! 2) = []"
proof -
  have r: "reachable store_failed_leaf"
    unfolding store_failed_leaf_def by (rule reachable_execute) (rule reachable.initial)
  have len: "length (requests store_failed_leaf) = 1"
    "length (tasks (requests store_failed_leaf ! 0)) = 3"
    by code_simp+
  have st: "status (tasks (requests store_failed_leaf ! 0) ! 1) = Done"
    "status (tasks (requests store_failed_leaf ! 0) ! 2) = Failed"
    by code_simp+
  have mem: "requests store_failed_leaf ! 0 \<in> set (requests store_failed_leaf)"
    "tasks (requests store_failed_leaf ! 0) ! 1 \<in> set (tasks (requests store_failed_leaf ! 0))"
    "tasks (requests store_failed_leaf ! 0) ! 2 \<in> set (tasks (requests store_failed_leaf ! 0))"
    using len by simp_all
  show ?thesis
    using terminal_fields_exclusive [OF r] mem st by blast
qed

section \<open>Self-dependencies (C6)\<close>

text \<open>
  C6. \<^verbatim>\<open>request_planning\<close> stores the caller's \<^verbatim>\<open>dependsOn\<close> as it is. On the empty
  store the first task gets the id \<^verbatim>\<open>task-1\<close>, so a definition that names \<^verbatim>\<open>task-1\<close>
  yields a task that depends on itself, in a reachable state, although
  \<^verbatim>\<open>add_dependency\<close> refuses that very edge. The task is never offered by
  \<^verbatim>\<open>get_next_task\<close>.
\<close>

theorem requestPlanning_self_dependency:
  "reachable store_self_dependency \<and>
   task_id (tasks (requests store_self_dependency ! 0) ! 0) = ''task-1'' \<and>
   dependsOn (tasks (requests store_self_dependency ! 0) ! 0) = Some [''task-1''] \<and>
   fst (addDependency store_self_dependency ''req-1'' ''task-1'' ''task-1'') = Error SelfDependency \<and>
   fst (getNextTask store_self_dependency ''req-1'') = NoActionableTask"
proof -
  have "reachable store_self_dependency"
    unfolding store_self_dependency_def by (rule reachable_execute) (rule reachable.initial)
  moreover have "task_id (tasks (requests store_self_dependency ! 0) ! 0) = ''task-1''"
    "dependsOn (tasks (requests store_self_dependency ! 0) ! 0) = Some [''task-1'']"
    "fst (addDependency store_self_dependency ''req-1'' ''task-1'' ''task-1'') = Error SelfDependency"
    "fst (getNextTask store_self_dependency ''req-1'') = NoActionableTask"
    by code_simp+
  ultimately show ?thesis by simp
qed



end
